theory Spec2Isabelle
  imports Complex_Main
begin

section \<open>JavaScript strings\<close>

text \<open>
  A JavaScript string is a sequence of UTF-16 code units. A code unit is a natural
  number here; ASCII text is written with \<open>str\<close>, other code units by their number
  (U+5FEB is 24555, U+624B is 25163).
\<close>

type_synonym jstring = "nat list"

definition str :: "string \<Rightarrow> jstring" where
  "str s = map of_char s"

text \<open>\<^verbatim>\<open>s.startsWith(p)\<close> and \<^verbatim>\<open>s.includes(p)\<close>.\<close>

definition starts_with :: "jstring \<Rightarrow> jstring \<Rightarrow> bool" where
  "starts_with s p = (take (length p) s = p)"

fun str_includes :: "jstring \<Rightarrow> jstring \<Rightarrow> bool" where
  "str_includes [] p = (p = [])"
| "str_includes (x # xs) p = (starts_with (x # xs) p \<or> str_includes xs p)"

text \<open>
  The code units that \<^verbatim>\<open>\s\<close> matches and that \<^verbatim>\<open>trim()\<close> strips (WhiteSpace and
  LineTerminator of ECMAScript), and the line terminators that \<^verbatim>\<open>.\<close> refuses.
\<close>

definition is_space :: "nat \<Rightarrow> bool" where
  "is_space c =
     (c \<in> set [9, 10, 11, 12, 13, 32, 160, 5760, 8232, 8233, 8239, 8287, 12288, 65279]
      \<or> (8192 \<le> c \<and> c \<le> 8202))"

definition is_line_terminator :: "nat \<Rightarrow> bool" where
  "is_line_terminator c = (c \<in> set [10, 13, 8232, 8233])"

definition trim :: "jstring \<Rightarrow> jstring" where
  "trim s = rev (dropWhile is_space (rev (dropWhile is_space s)))"

text \<open>The six code units backslash, u, 0, 0, 2, F.\<close>

definition u002F :: jstring where
  "u002F = [92, 117, 48, 48, 50, 70]"

section \<open>Regular expressions\<close>

text \<open>
  The patterns of routes.ts use literals, bracket classes (with \<^verbatim>\<open>\s\<close> inside),
  \<^verbatim>\<open>[\s\S]\<close>, \<^verbatim>\<open>.\<close>, \<^verbatim>\<open>$\<close>, alternation, the greedy quantifiers \<^verbatim>\<open>? * +\<close>, the lazy
  \<^verbatim>\<open>*?\<close>, and one capture group, which is never under a quantifier.
\<close>

datatype citem = Ch nat | Space

datatype regex =
    Eps
  | Lit nat
  | Cls "citem list"
  | NCls "citem list"
  | AnyChar
  | Dot
  | Eol
  | Seq regex regex
  | Alt regex regex
  | Opt regex
  | Star regex
  | Plus regex
  | LazyStar regex
  | Grp regex

text \<open>
  Canonicalize of ECMAScript for a regex without the u flag: with the i flag a code
  unit is compared by its upper case, and a code unit from 128 on never folds to an
  ASCII one. The literals and class members of the patterns below are ASCII, white
  space or one of the two CJK code units, none of which is the upper case of another
  code unit, so folding the ASCII letters is all that the i flag does to them.
\<close>

definition canonicalize :: "bool \<Rightarrow> nat \<Rightarrow> nat" where
  "canonicalize ic c = (if ic \<and> 97 \<le> c \<and> c \<le> 122 then c - 32 else c)"

fun citem_has :: "bool \<Rightarrow> citem \<Rightarrow> nat \<Rightarrow> bool" where
  "citem_has ic (Ch a) x = (canonicalize ic a = canonicalize ic x)"
| "citem_has ic Space x = is_space x"

definition cls_has :: "bool \<Rightarrow> citem list \<Rightarrow> nat \<Rightarrow> bool" where
  "cls_has ic items x = list_ex (\<lambda>it. citem_has ic it x) items"

text \<open>
  The matcher is the backtracking matcher of the ECMAScript specification, written
  with continuations: a state is the rest of the input and the text of group 1 (if
  the group has matched), a continuation finishes the match from a state or fails
  with \<open>None\<close>. The first success in backtracking order is the match.
\<close>

type_synonym mstate = "jstring \<times> jstring option"
type_synonym cont = "jstring \<Rightarrow> jstring option \<Rightarrow> mstate option"

definition one_char :: "(nat \<Rightarrow> bool) \<Rightarrow> cont \<Rightarrow> cont" where
  "one_char p k s c = (case s of [] \<Rightarrow> None | x # xs \<Rightarrow> if p x then k xs c else None)"

text \<open>
  RepeatMatcher with min 0 and no upper bound. An iteration that consumes nothing
  fails (the empty check of the specification), so every iteration shortens the
  rest; the list \<open>fuel\<close> is the rest at the start, one element is spent per
  iteration, and it cannot run out before the rest does: \<open>matcher_Star_unfold\<close> and
  \<open>matcher_LazyStar_unfold\<close> below are the recursion of the specification.
\<close>

primrec repeat_greedy :: "(cont \<Rightarrow> cont) \<Rightarrow> cont \<Rightarrow> nat list \<Rightarrow> cont" where
  "repeat_greedy f k [] s c = k s c"
| "repeat_greedy f k (x # fuel) s c =
     (case f (\<lambda>s' c'. if length s' < length s then repeat_greedy f k fuel s' c' else None) s c of
        Some r \<Rightarrow> Some r
      | None \<Rightarrow> k s c)"

primrec repeat_lazy :: "(cont \<Rightarrow> cont) \<Rightarrow> cont \<Rightarrow> nat list \<Rightarrow> cont" where
  "repeat_lazy f k [] s c = k s c"
| "repeat_lazy f k (x # fuel) s c =
     (case k s c of
        Some r \<Rightarrow> Some r
      | None \<Rightarrow>
          f (\<lambda>s' c'. if length s' < length s then repeat_lazy f k fuel s' c' else None) s c)"

primrec matcher :: "bool \<Rightarrow> regex \<Rightarrow> cont \<Rightarrow> cont" where
  "matcher ic Eps k s c = k s c"
| "matcher ic (Lit a) k s c = one_char (\<lambda>x. canonicalize ic a = canonicalize ic x) k s c"
| "matcher ic (Cls items) k s c = one_char (cls_has ic items) k s c"
| "matcher ic (NCls items) k s c = one_char (\<lambda>x. \<not> cls_has ic items x) k s c"
| "matcher ic AnyChar k s c = one_char (\<lambda>x. True) k s c"
| "matcher ic Dot k s c = one_char (\<lambda>x. \<not> is_line_terminator x) k s c"
| "matcher ic Eol k s c = (if s = [] then k s c else None)"
| "matcher ic (Seq a b) k s c = matcher ic a (matcher ic b k) s c"
| "matcher ic (Alt a b) k s c =
     (case matcher ic a k s c of
        Some res \<Rightarrow> Some res
      | None \<Rightarrow> matcher ic b k s c)"
| "matcher ic (Opt r) k s c =
     (case matcher ic r (\<lambda>s' c'. if length s' < length s then k s' c' else None) s c of
        Some res \<Rightarrow> Some res
      | None \<Rightarrow> k s c)"
| "matcher ic (Star r) k s c = repeat_greedy (matcher ic r) k s s c"
| "matcher ic (Plus r) k s c =
     matcher ic r (\<lambda>s' c'. repeat_greedy (matcher ic r) k s' s' c') s c"
| "matcher ic (LazyStar r) k s c = repeat_lazy (matcher ic r) k s s c"
| "matcher ic (Grp r) k s c =
     matcher ic r (\<lambda>s' c'. k s' (Some (take (length s - length s') s))) s c"

text \<open>
  A matcher succeeds only through its continuation, at a state no longer than the one
  it started from.
\<close>

definition from_cont :: "(cont \<Rightarrow> cont) \<Rightarrow> bool" where
  "from_cont f =
     (\<forall>k s c res. f k s c = Some res \<longrightarrow>
        (\<exists>s' c'. k s' c' = Some res \<and> length s' \<le> length s))"

text \<open>
  The least number of code units a match of a pattern consumes, and matchers that
  consume at least \<open>n\<close> code units.
\<close>

primrec min_len :: "regex \<Rightarrow> nat" where
  "min_len Eps = 0"
| "min_len (Lit a) = 1"
| "min_len (Cls items) = 1"
| "min_len (NCls items) = 1"
| "min_len AnyChar = 1"
| "min_len Dot = 1"
| "min_len Eol = 0"
| "min_len (Seq a b) = min_len a + min_len b"
| "min_len (Alt a b) = min (min_len a) (min_len b)"
| "min_len (Opt r) = 0"
| "min_len (Star r) = 0"
| "min_len (Plus r) = min_len r"
| "min_len (LazyStar r) = 0"
| "min_len (Grp r) = min_len r"

definition consumes :: "(cont \<Rightarrow> cont) \<Rightarrow> nat \<Rightarrow> bool" where
  "consumes f n =
     (\<forall>k s c res. f k s c = Some res \<longrightarrow>
        (\<exists>s' c'. k s' c' = Some res \<and> length s' + n \<le> length s))"

text \<open>
  A match array: \<open>m_index\<close> is \<^verbatim>\<open>match.index\<close>, \<open>m_all\<close> is \<^verbatim>\<open>match[0]\<close>, \<open>m_group1\<close> is
  \<^verbatim>\<open>match[1]\<close> (\<open>None\<close> for undefined).
\<close>

record rmatch =
  m_index :: nat
  m_all :: jstring
  m_group1 :: "jstring option"

definition match_at :: "bool \<Rightarrow> regex \<Rightarrow> nat \<Rightarrow> jstring \<Rightarrow> rmatch option" where
  "match_at ic r i s =
     (case matcher ic r (\<lambda>s' c'. Some (s', c')) s None of
        None \<Rightarrow> None
      | Some (s', c') \<Rightarrow>
          Some \<lparr>m_index = i, m_all = take (length s - length s') s, m_group1 = c'\<rparr>)"

text \<open>The start positions are tried from left to right, the end of the input included.\<close>

fun search :: "bool \<Rightarrow> regex \<Rightarrow> nat \<Rightarrow> jstring \<Rightarrow> rmatch option" where
  "search ic r i [] = match_at ic r i []"
| "search ic r i (x # xs) =
     (case match_at ic r i (x # xs) of
        Some m \<Rightarrow> Some m
      | None \<Rightarrow> search ic r (Suc i) xs)"

text \<open>
  A RegExp object. \<^verbatim>\<open>exec\<close> (RegExpBuiltinExec) starts at \<open>lastIndex\<close> when the g flag
  is set and at 0 otherwise; only with the g flag does it write \<open>lastIndex\<close>: the end
  of the match, or 0 when nothing matches.
\<close>

record regexp =
  re_source :: regex
  re_ignoreCase :: bool
  re_global :: bool
  re_lastIndex :: nat

definition new_regexp :: "regex \<Rightarrow> bool \<Rightarrow> bool \<Rightarrow> regexp" where
  "new_regexp r g i = \<lparr>re_source = r, re_ignoreCase = i, re_global = g, re_lastIndex = 0\<rparr>"

definition regexp_exec :: "regexp \<Rightarrow> jstring \<Rightarrow> rmatch option \<times> regexp" where
  "regexp_exec re s =
     (let li = (if re_global re then re_lastIndex re else 0) in
      if length s < li then (None, if re_global re then re\<lparr>re_lastIndex := 0\<rparr> else re)
      else
        (case search (re_ignoreCase re) (re_source re) li (drop li s) of
           None \<Rightarrow> (None, if re_global re then re\<lparr>re_lastIndex := 0\<rparr> else re)
         | Some m \<Rightarrow>
             (Some m,
              if re_global re then re\<lparr>re_lastIndex := m_index m + length (m_all m)\<rparr>
              else re)))"

text \<open>
  \<^verbatim>\<open>s.match(re)\<close> for a regex without the g flag is the result of \<^verbatim>\<open>re.exec(s)\<close>;
  \<^verbatim>\<open>s.replace(re, rep)\<close> for such a regex replaces the first match.
\<close>

definition string_match :: "jstring \<Rightarrow> regexp \<Rightarrow> rmatch option" where
  "string_match s re = fst (regexp_exec re s)"

definition string_replace :: "jstring \<Rightarrow> regexp \<Rightarrow> jstring \<Rightarrow> jstring" where
  "string_replace s re rep =
     (case fst (regexp_exec re s) of
        None \<Rightarrow> s
      | Some m \<Rightarrow> take (m_index m) s @ rep @ drop (m_index m + length (m_all m)) s)"

text \<open>
  \<^verbatim>\<open>s.replace(re, rep)\<close> for a regex with the g flag and a replacement text without
  \<^verbatim>\<open>$\<close> (RegExp.prototype[Symbol.replace]): \<open>lastIndex\<close> is set to 0 first, the matches
  are collected from left to right, each search starting where the match before it
  ended, one code unit further after an empty match, and every match is replaced. So
  the start positions are tried in turn: where the pattern does not match, the code
  unit is kept.
\<close>

function replace_matches :: "bool \<Rightarrow> regex \<Rightarrow> jstring \<Rightarrow> jstring \<Rightarrow> jstring" where
  "replace_matches ic r rep [] = (case match_at ic r 0 [] of None \<Rightarrow> [] | Some m \<Rightarrow> rep)"
| "replace_matches ic r rep (x # xs) =
     (case match_at ic r 0 (x # xs) of
        None \<Rightarrow> x # replace_matches ic r rep xs
      | Some m \<Rightarrow>
          if m_all m = [] then rep @ x # replace_matches ic r rep xs
          else rep @ replace_matches ic r rep (drop (length (m_all m)) (x # xs)))"
  by pat_completeness auto

termination
  by (relation "measure (\<lambda>(ic, r, rep, s). length s)") auto

declare replace_matches.simps [simp del]

definition string_replace_all :: "jstring \<Rightarrow> regexp \<Rightarrow> jstring \<Rightarrow> jstring" where
  "string_replace_all s re rep = replace_matches (re_ignoreCase re) (re_source re) rep s"

subsection \<open>The patterns of routes.ts\<close>

definition seqs :: "regex list \<Rightarrow> regex" where
  "seqs rs = foldr Seq rs Eps"

definition lit :: "string \<Rightarrow> regex" where
  "lit s = seqs (map (\<lambda>ch. Lit (of_char ch)) s)"

text \<open>\<^verbatim>\<open>["']\<close>, \<^verbatim>\<open>[^"']\<close>, \<^verbatim>\<open>[^"'\s]\<close>, \<^verbatim>\<open>[^>]\<close> and \<^verbatim>\<open>\s\<close>.\<close>

definition quote :: regex where "quote = Cls [Ch 34, Ch 39]"
definition not_quote :: regex where "not_quote = NCls [Ch 34, Ch 39]"
definition url_char :: regex where "url_char = NCls [Ch 34, Ch 39, Space]"
definition not_gt :: regex where "not_gt = NCls [Ch 62]"
definition space :: regex where "space = Cls [Space]"

text \<open>\<^verbatim>\<open>/<title[^>]*>([^<]+)<\/title>/i\<close>\<close>

definition title_pattern :: regexp where
  "title_pattern = new_regexp
     (seqs [lit ''<title'', Star not_gt, Lit 62, Grp (Plus (NCls [Ch 60])), lit ''</title>''])
     False True"

text \<open>\<^verbatim>\<open>/\s*[-|]\s*\<close>U+5FEB U+624B\<^verbatim>\<open>.*$/i\<close>\<close>

definition title_suffix_pattern :: regexp where
  "title_suffix_pattern = new_regexp
     (seqs [Star space, Cls [Ch 45, Ch 124], Star space, Lit 24555, Lit 25163, Star Dot, Eol])
     False True"

text \<open>
  \<^verbatim>\<open>/property=["']NAME["'][^>]*content=["']([^"']+)["']/i\<close> and
  \<^verbatim>\<open>/content=["']([^"']+)["'][^>]*property=["']NAME["']/i\<close>, where NAME is
  \<^verbatim>\<open>og:title\<close>, \<^verbatim>\<open>og:image\<close> or \<^verbatim>\<open>og:video(?::url)?\<close>.
\<close>

definition og_property_content :: "regex \<Rightarrow> regexp" where
  "og_property_content name = new_regexp
     (seqs [lit ''property='', quote, name, quote, Star not_gt,
            lit ''content='', quote, Grp (Plus not_quote), quote])
     False True"

definition og_content_property :: "regex \<Rightarrow> regexp" where
  "og_content_property name = new_regexp
     (seqs [lit ''content='', quote, Grp (Plus not_quote), quote, Star not_gt,
            lit ''property='', quote, name, quote])
     False True"

definition og_title_name :: regex where "og_title_name = lit ''og:title''"
definition og_image_name :: regex where "og_image_name = lit ''og:image''"
definition og_video_name :: regex where
  "og_video_name = seqs [lit ''og:video'', Opt (lit '':url'')]"

text \<open>
  \<^verbatim>\<open>/by\s+@?([^<"\n]+)/i\<close> and \<^verbatim>\<open>/"KEY"[:\s]*"([^"]+)"/i\<close> for the keys \<^verbatim>\<open>author\<close>,
  \<^verbatim>\<open>userName\<close> and \<^verbatim>\<open>name\<close>.
\<close>

definition author_by_pattern :: regexp where
  "author_by_pattern = new_regexp
     (seqs [lit ''by'', Plus space, Opt (Lit 64), Grp (Plus (NCls [Ch 60, Ch 34, Ch 10]))])
     False True"

definition json_key_pattern :: "string \<Rightarrow> regexp" where
  "json_key_pattern key = new_regexp
     (seqs [Lit 34, lit key, Lit 34, Star (Cls [Ch 58, Space]),
            Lit 34, Grp (Plus (NCls [Ch 34])), Lit 34])
     False True"

text \<open>
  \<^verbatim>\<open>/<script[^>]*type=["']application\/(?:ld\+)?json["'][^>]*>([\s\S]*?)<\/script>/gi\<close>
\<close>

definition jsonScriptPattern :: regexp where
  "jsonScriptPattern = new_regexp
     (seqs [lit ''<script'', Star not_gt, lit ''type='', quote, lit ''application/'',
            Opt (lit ''ld+''), lit ''json'', quote, Star not_gt, Lit 62,
            Grp (LazyStar AnyChar), lit ''</script>''])
     True True"

text \<open>
  \<^verbatim>\<open>/["'](https?:\/\/[^"'\s]+EXT[^"'\s]*?)["']/gi\<close> for an extension such as \<^verbatim>\<open>\.mp4\<close>,
  and \<^verbatim>\<open>/KEY["']?\s*[:=]\s*["']([^"']+)["']/i\<close> for a key such as \<^verbatim>\<open>playUrl\<close>.
\<close>

definition quoted_url_pattern :: "string \<Rightarrow> regexp" where
  "quoted_url_pattern ext = new_regexp
     (seqs [quote,
            Grp (seqs [lit ''http'', Opt (Lit 115), lit ''://'', Plus url_char, lit ext,
                       LazyStar url_char]),
            quote])
     True True"

definition key_pattern :: "string \<Rightarrow> regexp" where
  "key_pattern key = new_regexp
     (seqs [lit key, Opt quote, Star space, Cls [Ch 58, Ch 61], Star space,
            quote, Grp (Plus not_quote), quote])
     False True"

text \<open>\<^verbatim>\<open>/["'](https?:\/\/[^"'\s]*video[^"'\s]+\.mp4[^"'\s]*?)["']/gi\<close>\<close>

definition quoted_video_url_pattern :: regexp where
  "quoted_video_url_pattern = new_regexp
     (seqs [quote,
            Grp (seqs [lit ''http'', Opt (Lit 115), lit ''://'', Star url_char, lit ''video'',
                       Plus url_char, lit ''.mp4'', LazyStar url_char]),
            quote])
     True True"

text \<open>
  \<^verbatim>\<open>/["'](https?:\/\/[^"'\s]+(?:cover|poster|thumb)[^"'\s]*\.(?:jpg|jpeg|png|webp)[^"'\s]*?)["']/gi\<close>
\<close>

definition quoted_image_url_pattern :: regexp where
  "quoted_image_url_pattern = new_regexp
     (seqs [quote,
            Grp (seqs [lit ''http'', Opt (Lit 115), lit ''://'', Plus url_char,
                       Alt (lit ''cover'') (Alt (lit ''poster'') (lit ''thumb'')),
                       Star url_char, Lit 46,
                       Alt (lit ''jpg'') (Alt (lit ''jpeg'') (Alt (lit ''png'') (lit ''webp''))),
                       LazyStar url_char]),
            quote])
     True True"

definition audioUrlPatterns :: "regexp list" where
  "audioUrlPatterns =
     [quoted_url_pattern ''.m4a'', quoted_url_pattern ''.mp3'', quoted_url_pattern ''.aac'',
      key_pattern ''audioUrl'', key_pattern ''soundTrack'']"

definition videoUrlPatterns :: "regexp list" where
  "videoUrlPatterns =
     [quoted_url_pattern ''.mp4'', quoted_video_url_pattern,
      key_pattern ''videoUrl'', key_pattern ''playUrl'', key_pattern ''srcNoMark'']"

definition m3u8Patterns :: "regexp list" where
  "m3u8Patterns = [quoted_url_pattern ''.m3u8'', key_pattern ''hlsPlayUrl'']"

definition imgPatterns :: "regexp list" where
  "imgPatterns =
     [quoted_image_url_pattern, key_pattern ''coverUrl'', key_pattern ''posterUrl'']"

text \<open>\<^verbatim>\<open>/\\u002F/g\<close> and \<^verbatim>\<open>/\\/g\<close>\<close>

definition u002F_pattern :: regexp where
  "u002F_pattern = new_regexp (seqs (map Lit u002F)) True False"

definition backslash_pattern :: regexp where
  "backslash_pattern = new_regexp (Lit 92) True False"

section \<open>JavaScript values\<close>

text \<open>
  The values that reach the local variables of \<^verbatim>\<open>extractVideoInfoFromHtml\<close>: strings
  and undefined from regex groups, and whatever \<^verbatim>\<open>JSON.parse\<close> returns. Of a number
  the code observes only whether it is zero (an infinity, which \<^verbatim>\<open>JSON.parse\<close> yields
  for a literal out of range, stands as any number that is not zero).
\<close>

datatype jsval =
    JUndefined
  | JNull
  | JBool bool
  | JNum rat
  | JStr jstring
  | JArr "jsval list"
  | JObj "(jstring \<times> jsval) list"

datatype js_error = TypeError | SyntaxError

fun truthy :: "jsval \<Rightarrow> bool" where
  "truthy JUndefined = False"
| "truthy JNull = False"
| "truthy (JBool b) = b"
| "truthy (JNum n) = (n \<noteq> 0)"
| "truthy (JStr s) = (s \<noteq> [])"
| "truthy (JArr xs) = True"
| "truthy (JObj kvs) = True"

text \<open>\<^verbatim>\<open>a || b\<close>\<close>

definition js_or :: "jsval \<Rightarrow> jsval \<Rightarrow> jsval" where
  "js_or a b = (if truthy a then a else b)"

text \<open>
  \<^verbatim>\<open>v.KEY\<close> for the keys the code reads (\<^verbatim>\<open>contentUrl\<close>, \<^verbatim>\<open>thumbnailUrl\<close>, \<^verbatim>\<open>name\<close>,
  \<^verbatim>\<open>author\<close>): a TypeError on null and undefined, the own property of an object,
  and undefined otherwise, since no prototype of a JSON value has one of these keys.
  In an object the pairs are in the order \<^verbatim>\<open>JSON.parse\<close> keeps them, one per key.
\<close>

definition get_prop :: "jsval \<Rightarrow> string \<Rightarrow> js_error + jsval" where
  "get_prop v key =
     (case v of
        JUndefined \<Rightarrow> Inl TypeError
      | JNull \<Rightarrow> Inl TypeError
      | JObj kvs \<Rightarrow> Inr (case map_of kvs (str key) of Some x \<Rightarrow> x | None \<Rightarrow> JUndefined)
      | _ \<Rightarrow> Inr JUndefined)"

text \<open>\<^verbatim>\<open>v.author?.name\<close>\<close>

definition get_author_name :: "jsval \<Rightarrow> js_error + jsval" where
  "get_author_name v =
     (case get_prop v ''author'' of
        Inl e \<Rightarrow> Inl e
      | Inr a \<Rightarrow> if a = JUndefined \<or> a = JNull then Inr JUndefined else get_prop a ''name'')"

text \<open>
  A call of a String method (\<^verbatim>\<open>replace\<close>, \<^verbatim>\<open>trim\<close>) on a value: on anything but a
  string the method is missing or not a function, which is a TypeError.
\<close>

definition string_method :: "(jstring \<Rightarrow> jstring) \<Rightarrow> jsval \<Rightarrow> js_error + jsval" where
  "string_method f v = (case v of JStr s \<Rightarrow> Inr (JStr (f s)) | _ \<Rightarrow> Inl TypeError)"

definition group_value :: "rmatch \<Rightarrow> jsval" where
  "group_value m = (case m_group1 m of None \<Rightarrow> JUndefined | Some s \<Rightarrow> JStr s)"

section \<open>extractVideoInfoFromHtml\<close>

text \<open>The local variables \<^verbatim>\<open>title\<close>, \<^verbatim>\<open>author\<close>, \<^verbatim>\<open>thumbnail\<close>, \<^verbatim>\<open>videoUrl\<close>, \<^verbatim>\<open>audioUrl\<close>.\<close>

record vars =
  var_title :: jsval
  var_author :: jsval
  var_thumbnail :: jsval
  var_videoUrl :: jsval
  var_audioUrl :: jsval

text \<open>The returned object (\<^verbatim>\<open>VideoInfo\<close> of the shared schema).\<close>

record VideoInfo =
  title :: jsval
  author :: jsval
  thumbnail :: jsval
  videoUrl :: jsval
  audioUrl :: jsval
  quality :: jstring
  fileSize :: jstring

definition initial_vars :: vars where
  "initial_vars =
     \<lparr>var_title = JStr [], var_author = JStr [], var_thumbnail = JStr [],
      var_videoUrl = JStr [], var_audioUrl = JStr []\<rparr>"

text \<open>\<^verbatim>\<open>m1 || m2\<close> on two match results: a match array is truthy, null is not.\<close>

definition match_or :: "rmatch option \<Rightarrow> rmatch option \<Rightarrow> rmatch option" where
  "match_or a b = (case a of Some m \<Rightarrow> Some m | None \<Rightarrow> b)"

text \<open>Lines 63 to 66: the \<^verbatim>\<open><title>\<close> tag without its platform suffix.\<close>

definition titleMatch :: "jstring \<Rightarrow> rmatch option" where
  "titleMatch html = string_match html title_pattern"

definition step_title :: "jstring \<Rightarrow> vars \<Rightarrow> js_error + vars" where
  "step_title html v =
     (case titleMatch html of
        None \<Rightarrow> Inr v
      | Some m \<Rightarrow>
          (case string_method (\<lambda>s. trim (string_replace s title_suffix_pattern []))
                  (group_value m) of
             Inl e \<Rightarrow> Inl e
           | Inr t \<Rightarrow> Inr (v\<lparr>var_title := t\<rparr>)))"

text \<open>Lines 68 to 72: \<^verbatim>\<open>og:title\<close> overwrites the title.\<close>

definition ogTitleMatch :: "jstring \<Rightarrow> rmatch option" where
  "ogTitleMatch html =
     match_or (string_match html (og_property_content og_title_name))
              (string_match html (og_content_property og_title_name))"

definition step_og_title :: "jstring \<Rightarrow> vars \<Rightarrow> js_error + vars" where
  "step_og_title html v =
     (case ogTitleMatch html of
        None \<Rightarrow> Inr v
      | Some m \<Rightarrow>
          (case string_method trim (group_value m) of
             Inl e \<Rightarrow> Inl e
           | Inr t \<Rightarrow> Inr (v\<lparr>var_title := t\<rparr>)))"

text \<open>Lines 74 to 84: \<^verbatim>\<open>og:image\<close> and \<^verbatim>\<open>og:video\<close>.\<close>

definition ogImageMatch :: "jstring \<Rightarrow> rmatch option" where
  "ogImageMatch html =
     match_or (string_match html (og_property_content og_image_name))
              (string_match html (og_content_property og_image_name))"

definition ogVideoMatch :: "jstring \<Rightarrow> rmatch option" where
  "ogVideoMatch html =
     match_or (string_match html (og_property_content og_video_name))
              (string_match html (og_content_property og_video_name))"

definition step_og_image :: "jstring \<Rightarrow> vars \<Rightarrow> vars" where
  "step_og_image html v =
     (case ogImageMatch html of
        None \<Rightarrow> v
      | Some m \<Rightarrow> v\<lparr>var_thumbnail := group_value m\<rparr>)"

definition step_og_video :: "jstring \<Rightarrow> vars \<Rightarrow> vars" where
  "step_og_video html v =
     (case ogVideoMatch html of
        None \<Rightarrow> v
      | Some m \<Rightarrow> v\<lparr>var_videoUrl := group_value m\<rparr>)"

text \<open>Lines 86 to 92: the author.\<close>

definition authorMatch :: "jstring \<Rightarrow> rmatch option" where
  "authorMatch html =
     match_or (string_match html author_by_pattern)
       (match_or (string_match html (json_key_pattern ''author''))
          (match_or (string_match html (json_key_pattern ''userName''))
             (string_match html (json_key_pattern ''name''))))"

definition step_author :: "jstring \<Rightarrow> vars \<Rightarrow> js_error + vars" where
  "step_author html v =
     (case authorMatch html of
        None \<Rightarrow> Inr v
      | Some m \<Rightarrow>
          (case string_method trim (group_value m) of
             Inl e \<Rightarrow> Inl e
           | Inr a \<Rightarrow> Inr (v\<lparr>var_author := a\<rparr>)))"

text \<open>Lines 58 to 92 in sequence; an exception ends the sequence.\<close>

definition head_fields :: "jstring \<Rightarrow> js_error + vars" where
  "head_fields html =
     (case step_title html initial_vars of
        Inl e \<Rightarrow> Inl e
      | Inr v1 \<Rightarrow>
          (case step_og_title html v1 of
             Inl e \<Rightarrow> Inl e
           | Inr v2 \<Rightarrow> step_author html (step_og_video html (step_og_image html v2))))"

text \<open>
  Lines 98 to 102, the body of the inner \<^verbatim>\<open>try\<close>, after \<^verbatim>\<open>JSON.parse\<close> has returned
  \<open>json\<close>: the variables as they are when the block ends, and the exception if one
  ended it.
\<close>

definition json_assign :: "jsval \<Rightarrow> vars \<Rightarrow> vars \<times> js_error option" where
  "json_assign json v =
     (case get_prop json ''contentUrl'' of
        Inl e \<Rightarrow> (v, Some e)
      | Inr c \<Rightarrow>
          (let v1 = (if truthy c then v\<lparr>var_videoUrl := js_or (var_videoUrl v) c\<rparr> else v) in
           case get_prop json ''thumbnailUrl'' of
             Inl e \<Rightarrow> (v1, Some e)
           | Inr t \<Rightarrow>
               (let v2 = (if truthy t then v1\<lparr>var_thumbnail := js_or (var_thumbnail v1) t\<rparr>
                          else v1) in
                case get_prop json ''name'' of
                  Inl e \<Rightarrow> (v2, Some e)
                | Inr n \<Rightarrow>
                    (let v3 = (if truthy n then v2\<lparr>var_title := js_or (var_title v2) n\<rparr>
                               else v2) in
                     case get_author_name json of
                       Inl e \<Rightarrow> (v3, Some e)
                     | Inr a \<Rightarrow>
                         (if truthy a then v3\<lparr>var_author := js_or (var_author v3) a\<rparr>
                          else v3, None)))))"

text \<open>
  Lines 97 to 104, one script block. \<open>parse\<close> is \<^verbatim>\<open>JSON.parse\<close> (\<open>None\<close>: it throws a
  SyntaxError); its argument is converted to a string first. The \<^verbatim>\<open>catch\<close> is empty:
  whatever was thrown, the variables stay as they are.
\<close>

definition parse_argument :: "rmatch \<Rightarrow> jstring" where
  "parse_argument m = (case m_group1 m of None \<Rightarrow> str ''undefined'' | Some s \<Rightarrow> s)"

definition json_block :: "(jstring \<Rightarrow> jsval option) \<Rightarrow> rmatch \<Rightarrow> vars \<Rightarrow> vars" where
  "json_block parse m v =
     (case parse (parse_argument m) of
        None \<Rightarrow> v
      | Some json \<Rightarrow> fst (json_assign json v))"

text \<open>
  Lines 96 to 105: the \<^verbatim>\<open>while\<close> loop over the matches of the g-flag regex. A loop
  that does not end has the value \<open>None\<close>, here and below.
\<close>

partial_function (option) json_scan ::
  "(jstring \<Rightarrow> jsval option) \<Rightarrow> regexp \<Rightarrow> jstring \<Rightarrow> vars \<Rightarrow> vars option" where
  "json_scan parse re html v =
     (case regexp_exec re html of
        (None, re') \<Rightarrow> Some v
      | (Some m, re') \<Rightarrow> json_scan parse re' html (json_block parse m v))"

text \<open>
  Lines 117 to 124, 154 to 161 and 171 to 178 are the same loop over a list of
  patterns: the body of the inner \<^verbatim>\<open>while\<close> assigns \<^verbatim>\<open>match[1]\<close> and breaks, so it
  runs at most once per pattern; the outer loop stops at the first truthy value.
\<close>

fun scan_first :: "regexp list \<Rightarrow> jstring \<Rightarrow> jsval \<Rightarrow> jsval" where
  "scan_first [] html cur = cur"
| "scan_first (p # ps) html cur =
     (let cur' = (case fst (regexp_exec p html) of None \<Rightarrow> cur | Some m \<Rightarrow> group_value m)
      in if truthy cur' then cur' else scan_first ps html cur')"

text \<open>
  Line 139: \<^verbatim>\<open>foundUrl && foundUrl.includes(".mp4") && !foundUrl.includes("poster") &&
  !foundUrl.includes("cover")\<close>, on \<^verbatim>\<open>match[1]\<close>.
\<close>

definition video_candidate_ok :: "jstring option \<Rightarrow> bool" where
  "video_candidate_ok foundUrl =
     (case foundUrl of
        None \<Rightarrow> False
      | Some u \<Rightarrow> u \<noteq> [] \<and> str_includes u (str ''.mp4'') \<and> \<not> str_includes u (str ''poster'')
                  \<and> \<not> str_includes u (str ''cover''))"

text \<open>
  Lines 137 to 143, the inner \<^verbatim>\<open>while\<close> of the video fallback for one regex object:
  \<open>Some u\<close> when a candidate was taken (the \<^verbatim>\<open>break\<close>), \<open>None\<close> when \<^verbatim>\<open>exec\<close> returned
  null. A rejected candidate sends the loop back to \<^verbatim>\<open>exec\<close>.
\<close>

partial_function (option) video_scan :: "regexp \<Rightarrow> jstring \<Rightarrow> jstring option option" where
  "video_scan re html =
     (case regexp_exec re html of
        (None, re') \<Rightarrow> Some None
      | (Some m, re') \<Rightarrow>
          if video_candidate_ok (m_group1 m) then Some (m_group1 m)
          else video_scan re' html)"

text \<open>
  A regex object without the g flag whose first match is a rejected candidate:
  \<^verbatim>\<open>exec\<close> starts at 0 again and returns the same match.
\<close>

definition rejects_forever :: "regexp \<Rightarrow> jstring \<Rightarrow> bool" where
  "rejects_forever re html =
     (\<not> re_global re \<and>
      (case fst (regexp_exec re html) of
         None \<Rightarrow> False
       | Some m \<Rightarrow> \<not> video_candidate_ok (m_group1 m)))"

text \<open>Lines 135 to 145: the loop over \<^verbatim>\<open>videoUrlPatterns\<close>.\<close>

fun video_fallback :: "regexp list \<Rightarrow> jstring \<Rightarrow> jsval \<Rightarrow> jsval option" where
  "video_fallback [] html cur = Some cur"
| "video_fallback (p # ps) html cur =
     (case video_scan p html of
        None \<Rightarrow> None
      | Some found \<Rightarrow>
          (let cur' = (case found of None \<Rightarrow> cur | Some u \<Rightarrow> JStr u)
           in if truthy cur' then Some cur' else video_fallback ps html cur'))"

text \<open>
  The loop over a list of patterns does not end when it reaches, after patterns
  whose loop ended without a candidate, a regex object that rejects forever.
\<close>

fun hangs :: "regexp list \<Rightarrow> jstring \<Rightarrow> bool" where
  "hangs [] html = False"
| "hangs (p # ps) html =
     (rejects_forever p html \<or> (video_scan p html = Some None \<and> hangs ps html))"

text \<open>
  Lines 58 to 179: the cascade up to the post-processing. \<open>None\<close>: a loop does not
  end; \<open>Some (Inl e)\<close>: an exception left the steps; \<open>Some (Inr v)\<close>: the variables.
\<close>

definition cascade ::
  "(jstring \<Rightarrow> jsval option) \<Rightarrow> jstring \<Rightarrow> (js_error + vars) option" where
  "cascade parse html =
     (case head_fields html of
        Inl e \<Rightarrow> Some (Inl e)
      | Inr v1 \<Rightarrow>
          (case json_scan parse jsonScriptPattern html v1 of
             None \<Rightarrow> None
           | Some v2 \<Rightarrow>
               (let v3 = v2\<lparr>var_audioUrl := scan_first audioUrlPatterns html (JStr [])\<rparr> in
                case (if \<not> truthy (var_videoUrl v3)
                      then video_fallback videoUrlPatterns html (var_videoUrl v3)
                      else Some (var_videoUrl v3)) of
                  None \<Rightarrow> None
                | Some vid \<Rightarrow>
                    (let v4 = v3\<lparr>var_videoUrl := vid\<rparr>;
                         v5 = (if \<not> truthy (var_videoUrl v4)
                               then v4\<lparr>var_videoUrl :=
                                         scan_first m3u8Patterns html (var_videoUrl v4)\<rparr>
                               else v4);
                         v6 = (if \<not> truthy (var_thumbnail v5)
                               then v5\<lparr>var_thumbnail :=
                                         scan_first imgPatterns html (var_thumbnail v5)\<rparr>
                               else v5)
                     in Some (Inr v6)))))"

text \<open>
  Lines 181 to 204: unescaping, the terminal rule and the returned object.
  \<^verbatim>\<open>.replace(/\\u002F/g, "/").replace(/\\/g, "")\<close> on lines 182, 185 and 193.
\<close>

definition unescape :: "jstring \<Rightarrow> jstring" where
  "unescape s =
     string_replace_all (string_replace_all s u002F_pattern [47]) backslash_pattern []"

definition unescape_if_set :: "jsval \<Rightarrow> js_error + jsval" where
  "unescape_if_set x = (if truthy x then string_method unescape x else Inr x)"

definition finish :: "vars \<Rightarrow> js_error + VideoInfo option" where
  "finish v =
     (case unescape_if_set (var_videoUrl v) of
        Inl e \<Rightarrow> Inl e
      | Inr vid \<Rightarrow>
          (case unescape_if_set (var_thumbnail v) of
             Inl e \<Rightarrow> Inl e
           | Inr thumb \<Rightarrow>
               if \<not> truthy vid then Inr None
               else
                 (case unescape_if_set (var_audioUrl v) of
                    Inl e \<Rightarrow> Inl e
                  | Inr audio \<Rightarrow>
                      Inr (Some \<lparr>title = js_or (var_title v) (JStr (str ''Kuaishou Video'')),
                                  author = js_or (var_author v) (JStr (str ''Unknown'')),
                                  thumbnail = thumb,
                                  videoUrl = vid,
                                  audioUrl = js_or audio JUndefined,
                                  quality = str ''720p'',
                                  fileSize = []\<rparr>))))"

text \<open>The body of the outer \<^verbatim>\<open>try\<close> (lines 58 to 204).\<close>

definition extract_try ::
  "(jstring \<Rightarrow> jsval option) \<Rightarrow> jstring \<Rightarrow> jstring \<Rightarrow> (js_error + VideoInfo option) option" where
  "extract_try parse html originalUrl =
     (case cascade parse html of
        None \<Rightarrow> None
      | Some (Inl e) \<Rightarrow> Some (Inl e)
      | Some (Inr v) \<Rightarrow> Some (finish v))"

text \<open>
  The function: the outer \<^verbatim>\<open>catch\<close> turns every exception of the body into null.
  \<open>None\<close>: the call does not return; \<open>Some (Inl e)\<close>: it throws \<open>e\<close>;
  \<open>Some (Inr None)\<close>: it returns null; \<open>Some (Inr (Some d))\<close>: it returns \<open>d\<close>.
\<close>

definition extractVideoInfoFromHtml ::
  "(jstring \<Rightarrow> jsval option) \<Rightarrow> jstring \<Rightarrow> jstring \<Rightarrow> (js_error + VideoInfo option) option" where
  "extractVideoInfoFromHtml parse html originalUrl =
     (case extract_try parse html originalUrl of
        None \<Rightarrow> None
      | Some (Inl e) \<Rightarrow> Some (Inr None)
      | Some (Inr r) \<Rightarrow> Some (Inr r))"

section \<open>The regex objects of an invocation\<close>

text \<open>
  \<^verbatim>\<open>exec\<close> on a regex with the g flag reads and writes \<open>lastIndex\<close> of the object it
  is called on, so what a loop finds depends on the state of its object. To follow
  the objects from one invocation to the next they are kept in a store: a list of
  regex objects, the address of an object being its position. The store at the start
  of an invocation holds the objects that earlier invocations left behind.
  Evaluating a regex literal makes a new object, with \<open>lastIndex\<close> 0, at a new
  address; an array literal of regex literals makes one object per element.
\<close>

type_synonym store = "regexp list"

definition new_object :: "regexp \<Rightarrow> store \<Rightarrow> nat \<times> store" where
  "new_object re st = (length st, st @ [re])"

definition new_objects :: "regexp list \<Rightarrow> store \<Rightarrow> nat list \<times> store" where
  "new_objects res st = ([length st..<length st + length res], st @ res)"

text \<open>\<^verbatim>\<open>pattern.exec(s)\<close> for the object at address \<open>a\<close>.\<close>

definition exec_at :: "nat \<Rightarrow> jstring \<Rightarrow> store \<Rightarrow> rmatch option \<times> store" where
  "exec_at a s st = (case regexp_exec (st ! a) s of (m, re') \<Rightarrow> (m, st[a := re']))"

text \<open>
  The loops of lines 96 to 105, 117 to 124, 137 to 143 and 135 to 145 once more, on
  addresses: each returns its result and the store it leaves.
\<close>

partial_function (option) json_scan_at ::
  "(jstring \<Rightarrow> jsval option) \<Rightarrow> nat \<Rightarrow> jstring \<Rightarrow> vars \<Rightarrow> store \<Rightarrow> (vars \<times> store) option"
where
  "json_scan_at parse a html v st =
     (case exec_at a html st of
        (None, st') \<Rightarrow> Some (v, st')
      | (Some m, st') \<Rightarrow> json_scan_at parse a html (json_block parse m v) st')"

fun scan_first_at :: "nat list \<Rightarrow> jstring \<Rightarrow> jsval \<Rightarrow> store \<Rightarrow> jsval \<times> store" where
  "scan_first_at [] html cur st = (cur, st)"
| "scan_first_at (a # as) html cur st =
     (case exec_at a html st of
        (m, st') \<Rightarrow>
          (let cur' = (case m of None \<Rightarrow> cur | Some m \<Rightarrow> group_value m)
           in if truthy cur' then (cur', st') else scan_first_at as html cur' st'))"

partial_function (option) video_scan_at ::
  "nat \<Rightarrow> jstring \<Rightarrow> store \<Rightarrow> (jstring option \<times> store) option" where
  "video_scan_at a html st =
     (case exec_at a html st of
        (None, st') \<Rightarrow> Some (None, st')
      | (Some m, st') \<Rightarrow>
          if video_candidate_ok (m_group1 m) then Some (m_group1 m, st')
          else video_scan_at a html st')"

fun video_fallback_at ::
  "nat list \<Rightarrow> jstring \<Rightarrow> jsval \<Rightarrow> store \<Rightarrow> (jsval \<times> store) option" where
  "video_fallback_at [] html cur st = Some (cur, st)"
| "video_fallback_at (a # as) html cur st =
     (case video_scan_at a html st of
        None \<Rightarrow> None
      | Some (found, st') \<Rightarrow>
          (let cur' = (case found of None \<Rightarrow> cur | Some u \<Rightarrow> JStr u)
           in if truthy cur' then Some (cur', st') else video_fallback_at as html cur' st'))"

text \<open>
  The regex literal of line 94 and the array literals of lines 109, 126, 148 and
  164 are evaluated where they stand, whether or not the loop after them runs; each
  stage returns its value and the store it leaves. The regex literals handed to
  \<^verbatim>\<open>match\<close> and \<^verbatim>\<open>replace\<close> are left out of the store: \<^verbatim>\<open>match\<close> with a regex
  without the g flag does not read \<open>lastIndex\<close>, \<^verbatim>\<open>replace\<close> with a g-flag regex sets
  it to 0 first, and nothing refers to these objects after the call.
\<close>

definition json_stage ::
  "(jstring \<Rightarrow> jsval option) \<Rightarrow> jstring \<Rightarrow> vars \<Rightarrow> store \<Rightarrow> (vars \<times> store) option" where
  "json_stage parse html v st =
     (case new_object jsonScriptPattern st of
        (a, st1) \<Rightarrow> json_scan_at parse a html v st1)"

definition audio_stage :: "jstring \<Rightarrow> store \<Rightarrow> jsval \<times> store" where
  "audio_stage html st =
     (case new_objects audioUrlPatterns st of
        (as, st1) \<Rightarrow> scan_first_at as html (JStr []) st1)"

definition video_stage :: "jstring \<Rightarrow> jsval \<Rightarrow> store \<Rightarrow> (jsval \<times> store) option" where
  "video_stage html cur st =
     (case new_objects videoUrlPatterns st of
        (as, st1) \<Rightarrow>
          if \<not> truthy cur then video_fallback_at as html cur st1 else Some (cur, st1))"

definition m3u8_stage :: "jstring \<Rightarrow> jsval \<Rightarrow> store \<Rightarrow> jsval \<times> store" where
  "m3u8_stage html cur st =
     (case new_objects m3u8Patterns st of
        (as, st1) \<Rightarrow> if \<not> truthy cur then scan_first_at as html cur st1 else (cur, st1))"

definition img_stage :: "jstring \<Rightarrow> jsval \<Rightarrow> store \<Rightarrow> jsval \<times> store" where
  "img_stage html cur st =
     (case new_objects imgPatterns st of
        (as, st1) \<Rightarrow> if \<not> truthy cur then scan_first_at as html cur st1 else (cur, st1))"

text \<open>Lines 58 to 179 with the store.\<close>

definition cascade_at ::
  "(jstring \<Rightarrow> jsval option) \<Rightarrow> jstring \<Rightarrow> store \<Rightarrow> ((js_error + vars) \<times> store) option" where
  "cascade_at parse html st =
     (case head_fields html of
        Inl e \<Rightarrow> Some (Inl e, st)
      | Inr v1 \<Rightarrow>
          (case json_stage parse html v1 st of
             None \<Rightarrow> None
           | Some (v2, st2) \<Rightarrow>
               (case audio_stage html st2 of
                  (audio, st3) \<Rightarrow>
                    (case video_stage html (var_videoUrl v2) st3 of
                       None \<Rightarrow> None
                     | Some (vid, st4) \<Rightarrow>
                         (case m3u8_stage html vid st4 of
                            (vid', st5) \<Rightarrow>
                              (case img_stage html (var_thumbnail v2) st5 of
                                 (thumb, st6) \<Rightarrow>
                                   Some (Inr (v2\<lparr>var_thumbnail := thumb, var_videoUrl := vid',
                                                 var_audioUrl := audio\<rparr>),
                                         st6)))))))"

text \<open>
  The function with the store: the body of the outer \<^verbatim>\<open>try\<close>, then the \<^verbatim>\<open>catch\<close>.
  The result is as for \<open>extractVideoInfoFromHtml\<close>, paired with the store at the
  end.
\<close>

definition extract_try_at ::
  "(jstring \<Rightarrow> jsval option) \<Rightarrow> jstring \<Rightarrow> jstring \<Rightarrow> store \<Rightarrow>
   ((js_error + VideoInfo option) \<times> store) option" where
  "extract_try_at parse html originalUrl st =
     (case cascade_at parse html st of
        None \<Rightarrow> None
      | Some (Inl e, st') \<Rightarrow> Some (Inl e, st')
      | Some (Inr v, st') \<Rightarrow> Some (finish v, st'))"

definition extractVideoInfoFromHtml_at ::
  "(jstring \<Rightarrow> jsval option) \<Rightarrow> jstring \<Rightarrow> jstring \<Rightarrow> store \<Rightarrow>
   ((js_error + VideoInfo option) \<times> store) option" where
  "extractVideoInfoFromHtml_at parse html originalUrl st =
     (case extract_try_at parse html originalUrl st of
        None \<Rightarrow> None
      | Some (Inl e, st') \<Rightarrow> Some (Inr None, st')
      | Some (Inr r, st') \<Rightarrow> Some (Inr r, st'))"

section \<open>The unescaping as the specification words it\<close>

text \<open>
  The specification says of the post-processing: every \<^verbatim>\<open>\u002F\<close> sequence is
  replaced by a slash, and every backslash that remains is removed. Read from left to
  right: at an occurrence of the six code units a slash is written and the
  occurrence is skipped, any other code unit is copied; then the backslashes are
  filtered out. \<open>unescape_spec\<close> below shows that the two regex replacements of the
  code compute this.
\<close>

fun spec_replace_u002F :: "jstring \<Rightarrow> jstring" where
  "spec_replace_u002F [] = []"
| "spec_replace_u002F (x # xs) =
     (if starts_with (x # xs) u002F then 47 # spec_replace_u002F (drop 5 xs)
      else x # spec_replace_u002F xs)"

definition spec_strip_backslashes :: "jstring \<Rightarrow> jstring" where
  "spec_strip_backslashes s = filter (\<lambda>c. c \<noteq> 92) s"

definition spec_unescape :: "jstring \<Rightarrow> jstring" where
  "spec_unescape s = spec_strip_backslashes (spec_replace_u002F s)"

section \<open>fetchWithRedirects\<close>

text \<open>
  What the loop reads of a response: the status and \<^verbatim>\<open>headers.get("location")\<close>
  (\<open>None\<close> for null); the body is carried along for the caller.
\<close>

record response =
  resp_status :: nat
  resp_location :: "jstring option"
  resp_body :: jstring

datatype fetch_error = NetworkError | InvalidUrlError | NoResponseError

text \<open>
  The network is a parameter: \<open>net n url\<close> is the outcome of \<^verbatim>\<open>fetch(url, ...)\<close> with
  manual redirect handling when \<open>n\<close> requests were made before (\<open>None\<close>: the promise
  rejects). \<open>resolve loc base\<close> is \<^verbatim>\<open>new URL(loc, base).href\<close> (\<open>None\<close>: the constructor
  throws).
\<close>

type_synonym network = "nat \<Rightarrow> jstring \<Rightarrow> response option"
type_synonym resolver = "jstring \<Rightarrow> jstring \<Rightarrow> jstring option"

text \<open>Lines 49 to 53.\<close>

definition after_loop :: "response option \<Rightarrow> fetch_error + response" where
  "after_loop response =
     (case response of None \<Rightarrow> Inl NoResponseError | Some r \<Rightarrow> Inr r)"

text \<open>Line 42.\<close>

definition next_url :: "resolver \<Rightarrow> jstring \<Rightarrow> jstring \<Rightarrow> jstring option" where
  "next_url resolve currentUrl location =
     (if starts_with location (str ''http'') then Some location
      else resolve location currentUrl)"

text \<open>Lines 33 to 47: the \<^verbatim>\<open>for\<close> loop, entered at counter \<open>i\<close>.\<close>

function redirect_loop ::
  "network \<Rightarrow> resolver \<Rightarrow> int \<Rightarrow> int \<Rightarrow> jstring \<Rightarrow> response option
   \<Rightarrow> fetch_error + response" where
  "redirect_loop net resolve maxRedirects i currentUrl response =
     (if i < maxRedirects then
        (case net (nat i) currentUrl of
           None \<Rightarrow> Inl NetworkError
         | Some r \<Rightarrow>
             if 300 \<le> resp_status r \<and> resp_status r < 400 then
               (case resp_location r of
                  None \<Rightarrow> after_loop (Some r)
                | Some location \<Rightarrow>
                    if location \<noteq> [] then
                      (case next_url resolve currentUrl location of
                         None \<Rightarrow> Inl InvalidUrlError
                       | Some u \<Rightarrow> redirect_loop net resolve maxRedirects (i + 1) u (Some r))
                    else after_loop (Some r))
             else after_loop (Some r))
      else after_loop response)"
  by pat_completeness auto
termination
  by (relation "measure (\<lambda>(net, resolve, maxRedirects, i, currentUrl, response).
        nat (maxRedirects - i))") auto

declare redirect_loop.simps [simp del]

definition fetchWithRedirects ::
  "network \<Rightarrow> resolver \<Rightarrow> jstring \<Rightarrow> int \<Rightarrow> fetch_error + response" where
  "fetchWithRedirects net resolve url maxRedirects =
     redirect_loop net resolve maxRedirects 0 url None"


definition is_redirect :: "response \<Rightarrow> bool" where
  "is_redirect r =
     (300 \<le> resp_status r \<and> resp_status r < 400 \<and>
      (case resp_location r of None \<Rightarrow> False | Some location \<Rightarrow> location \<noteq> []))"

section \<open>The download relay\<close>

text \<open>
  The handler of \<^verbatim>\<open>GET /api/download\<close>. A query parameter is absent, a string, or
  something else (an array or an object); the upstream answer has a status, maybe a
  \<^verbatim>\<open>content-length\<close> header, and maybe a body, which is a finite list of chunks that
  ends or fails.
\<close>

datatype query_value = QAbsent | QString jstring | QOther

datatype stream_end = Done | ReadFailed

record upstream =
  up_status :: nat
  up_content_length :: "jstring option"
  up_body :: "(nat list list \<times> stream_end) option"

text \<open>
  The Express response as the handler leaves it: every JSON body of the handler is
  \<^verbatim>\<open>{ error: message }\<close>, so \<open>res_json\<close> holds the message.
\<close>

record download_response =
  res_status :: nat
  res_headers :: "(string \<times> jstring) list"
  res_json :: "string option"
  res_chunks :: "nat list list"
  res_headersSent :: bool
  res_ended :: bool

definition fresh_response :: download_response where
  "fresh_response =
     \<lparr>res_status = 200, res_headers = [], res_json = None, res_chunks = [],
      res_headersSent = False, res_ended = False\<rparr>"

text \<open>\<^verbatim>\<open>res.status(code).json({ error: message })\<close>\<close>

definition send_error :: "nat \<Rightarrow> string \<Rightarrow> download_response \<Rightarrow> download_response" where
  "send_error code message res =
     res\<lparr>res_status := code, res_json := Some message, res_headersSent := True,
         res_ended := True\<rparr>"

definition setHeader :: "string \<Rightarrow> jstring \<Rightarrow> download_response \<Rightarrow> download_response" where
  "setHeader name v res = res\<lparr>res_headers := res_headers res @ [(name, v)]\<rparr>"

text \<open>\<^verbatim>\<open>fetchResponse.ok\<close>\<close>

definition ok :: "upstream \<Rightarrow> bool" where
  "ok up = (200 \<le> up_status up \<and> up_status up \<le> 299)"

text \<open>Lines 292 to 308.\<close>

fun pump :: "nat list list \<Rightarrow> stream_end \<Rightarrow> download_response \<Rightarrow> download_response" where
  "pump [] Done res = res\<lparr>res_ended := True\<rparr>"
| "pump [] ReadFailed res =
     (if \<not> res_headersSent res then send_error 500 ''Stream error'' res
      else res\<lparr>res_ended := True\<rparr>)"
| "pump (chunk # rest) e res =
     pump rest e (res\<lparr>res_chunks := res_chunks res @ [chunk], res_headersSent := True\<rparr>)"

text \<open>
  Lines 259 to 317. \<open>fetch_media url\<close> is \<^verbatim>\<open>fetch(url, ...)\<close> (\<open>None\<close>: it rejects, which
  the outer \<^verbatim>\<open>catch\<close> answers).
\<close>

definition download ::
  "(jstring \<Rightarrow> upstream option) \<Rightarrow> query_value \<Rightarrow> query_value \<Rightarrow> download_response" where
  "download fetch_media url type =
     (case url of
        QString u \<Rightarrow>
          if u = [] then send_error 400 ''Missing video URL'' fresh_response
          else
            (let downloadType = (if type = QString (str ''audio'') then ''audio'' else ''video'');
                 filename = (if downloadType = ''audio'' then ''kuaishou-audio.m4a''
                             else ''kuaishou-video.mp4'');
                 contentType = (if downloadType = ''audio'' then ''audio/mp4'' else ''video/mp4'')
             in case fetch_media u of
                  None \<Rightarrow> send_error 500 ''Download failed'' fresh_response
                | Some fetchResponse \<Rightarrow>
                    if \<not> ok fetchResponse
                    then send_error (up_status fetchResponse) ''Failed to download file''
                           fresh_response
                    else
                      (let res1 = setHeader ''Content-Type'' (str contentType) fresh_response;
                           res2 = setHeader ''Content-Disposition''
                                    (str ''attachment; filename='' @ [34] @ str filename @ [34])
                                    res1;
                           res3 = (case up_content_length fetchResponse of
                                     None \<Rightarrow> res2
                                   | Some contentLength \<Rightarrow>
                                       if contentLength \<noteq> []
                                       then setHeader ''Content-Length'' contentLength res2
                                       else res2)
                       in case up_body fetchResponse of
                            None \<Rightarrow> send_error 500 ''Failed to read response body'' res3
                          | Some (chunks, e) \<Rightarrow> pump chunks e res3))
      | _ \<Rightarrow> send_error 400 ''Missing video URL'' fresh_response)"

section \<open>Example inputs\<close>

text \<open>
  A page that carries only a manifest under the key \<^verbatim>\<open>hlsPlayUrl\<close>:
  \<^verbatim>\<open>hlsPlayUrl: "https://cdn.example.com/v.m3u8"\<close>
\<close>

definition html_hls :: jstring where
  "html_hls = str ''hlsPlayUrl: '' @ [34] @ str ''https://cdn.example.com/v.m3u8'' @ [34]"

text \<open>
  Two script blocks, the first one not JSON:
  \<^verbatim>\<open><script type='application/json'>{</script><script type='application/json'>{"contentUrl":5}</script>\<close>
  with \<^verbatim>\<open>JSON.parse\<close> on the two texts of the page.
\<close>

definition json_text :: jstring where
  "json_text = [123, 34] @ str ''contentUrl'' @ [34] @ str '':5}''"

definition html_json :: jstring where
  "html_json =
     str ''<script type='' @ [39] @ str ''application/json'' @ [39] @ str ''>{</script>'' @
     str ''<script type='' @ [39] @ str ''application/json'' @ [39] @ str ''>'' @ json_text @
     str ''</script>''"

definition parse_example :: "jstring \<Rightarrow> jsval option" where
  "parse_example s =
     (if s = json_text then Some (JObj [(str ''contentUrl'', JNum 5)]) else None)"

text \<open>
  \<^verbatim>\<open><title>B \<close>U+2014\<^verbatim>\<open> \<close>U+5FEB U+624B\<^verbatim>\<open></title><meta property="og:title" content="A">\<close>
  \<^verbatim>\<open><meta property="og:video" content="v.mp4">\<close>
\<close>

definition html_titles :: jstring where
  "html_titles =
     str ''<title>B '' @ [8212, 32, 24555, 25163] @ str ''</title>'' @
     str ''<meta property='' @ [34] @ str ''og:title'' @ [34] @ str '' content='' @ [34] @
     str ''A'' @ [34] @ str ''>'' @
     str ''<meta property='' @ [34] @ str ''og:video'' @ [34] @ str '' content='' @ [34] @
     str ''v.mp4'' @ [34] @ str ''>''"

text \<open>\<^verbatim>\<open><meta property="og:video" content="https://cdn.example.com/cover_123.mp4">\<close>\<close>

definition cover_url :: jstring where
  "cover_url = str ''https://cdn.example.com/cover_123.mp4''"

definition html_og_cover :: jstring where
  "html_og_cover =
     str ''<meta property='' @ [34] @ str ''og:video'' @ [34] @ str '' content='' @ [34] @
     cover_url @ [34] @ str ''>''"

text \<open>\<^verbatim>\<open>"https://cdn.example.com/cover_123.mp4" "https://cdn.example.com/v.mp4"\<close>\<close>

definition plain_url :: jstring where
  "plain_url = str ''https://cdn.example.com/v.mp4''"

definition html_two_urls :: jstring where
  "html_two_urls = [34] @ cover_url @ [34, 32, 34] @ plain_url @ [34]"

text \<open>\<^verbatim>\<open>"videoUrl":"https:\/\/cdn.example.com\/v.mp4"\<close>\<close>

definition escaped_url :: jstring where
  "escaped_url =
     str ''https:'' @ [92, 47, 92, 47] @ str ''cdn.example.com'' @ [92, 47] @ str ''v.mp4''"

definition html_escaped :: jstring where
  "html_escaped = [34] @ str ''videoUrl'' @ [34, 58, 34] @ escaped_url @ [34]"

text \<open>
  \<^verbatim>\<open>"videoUrl":"https:\u002F\u002Fh.cn\/v.mp4","coverUrl":"https:\u002F\u002Fh.cn\u002Fc.jpg","audioUrl":"https:\u002F\u002Fh.cn\u002Fa.m4a"\<close>
\<close>

definition u_video_url :: jstring where
  "u_video_url = str ''https:'' @ u002F @ u002F @ str ''h.cn'' @ [92, 47] @ str ''v.mp4''"

definition u_cover_url :: jstring where
  "u_cover_url = str ''https:'' @ u002F @ u002F @ str ''h.cn'' @ u002F @ str ''c.jpg''"

definition u_audio_url :: jstring where
  "u_audio_url = str ''https:'' @ u002F @ u002F @ str ''h.cn'' @ u002F @ str ''a.m4a''"

definition html_u002F :: jstring where
  "html_u002F =
     [34] @ str ''videoUrl'' @ [34, 58, 34] @ u_video_url @ [34, 44, 34] @
     str ''coverUrl'' @ [34, 58, 34] @ u_cover_url @ [34, 44, 34] @
     str ''audioUrl'' @ [34, 58, 34] @ u_audio_url @ [34]"

definition info_u002F :: VideoInfo where
  "info_u002F =
     \<lparr>title = JStr (str ''Kuaishou Video''), author = JStr (str ''Unknown''),
      thumbnail = JStr (str ''https://h.cn/c.jpg''), videoUrl = JStr (str ''https://h.cn/v.mp4''),
      audioUrl = JStr (str ''https://h.cn/a.m4a''), quality = str ''720p'', fileSize = []\<rparr>"

text \<open>
  \<^verbatim>\<open>"https://cdn.example.com/v.mp4"\<close>, and the objects that an invocation on this page
  leaves in the store: the first object of \<^verbatim>\<open>videoUrlPatterns\<close> has stopped at the end
  of its match, all others are as they were made.
\<close>

definition html_quoted :: jstring where
  "html_quoted = [34] @ plain_url @ [34]"

definition objects_left :: store where
  "objects_left =
     [jsonScriptPattern] @ audioUrlPatterns @
     videoUrlPatterns[0 := (quoted_url_pattern ''.mp4'')\<lparr>re_lastIndex := 31\<rparr>] @
     m3u8Patterns @ imgPatterns"

text \<open>
  A network that answers each of the first \<open>n\<close> requests with a 302 to the next
  URL of a chain and every later request with a 200, and a resolver for the
  Locations of the chain, which are absolute already.
\<close>

definition hop_url :: "nat \<Rightarrow> jstring" where
  "hop_url j = str ''http://h/'' @ [48 + j]"

definition redirect_response :: "nat \<Rightarrow> response" where
  "redirect_response j =
     \<lparr>resp_status = 302, resp_location = Some (hop_url (Suc j)), resp_body = []\<rparr>"

definition final_response :: response where
  "final_response = \<lparr>resp_status = 200, resp_location = None, resp_body = str ''ok''\<rparr>"

definition redirecting_net :: "nat \<Rightarrow> network" where
  "redirecting_net n j u = Some (if j < n then redirect_response j else final_response)"

definition resolve_example :: resolver where
  "resolve_example location base = None"

text \<open>An upstream that answers 404 without a body.\<close>

definition not_found_upstream :: upstream where
  "not_found_upstream = \<lparr>up_status = 404, up_content_length = None, up_body = None\<rparr>"

definition fetch_not_found :: "jstring \<Rightarrow> upstream option" where
  "fetch_not_found u = Some not_found_upstream"

text \<open>The match arrays and returned objects of the examples.\<close>

definition first_block_match :: rmatch where
  "first_block_match =
     \<lparr>m_index = 0,
      m_all = str ''<script type='' @ [39] @ str ''application/json'' @ [39] @
              str ''>{</script>'',
      m_group1 = Some [123]\<rparr>"

definition og_title_match :: rmatch where
  "og_title_match =
     \<lparr>m_index = 27,
      m_all = str ''property='' @ [34] @ str ''og:title'' @ [34] @ str '' content='' @
              [34] @ str ''A'' @ [34],
      m_group1 = Some (str ''A'')\<rparr>"

definition info_with :: "jstring \<Rightarrow> jstring \<Rightarrow> VideoInfo" where
  "info_with t v =
     \<lparr>title = JStr t, author = JStr (str ''Unknown''), thumbnail = JStr [],
      videoUrl = JStr v, audioUrl = JUndefined, quality = str ''720p'', fileSize = []\<rparr>"

section \<open>The matcher follows the specification's recursion\<close>

lemma from_contD:
  "from_cont f \<Longrightarrow> f k s c = Some res \<Longrightarrow>
   \<exists>s' c'. k s' c' = Some res \<and> length s' \<le> length s"
  unfolding from_cont_def by blast

lemma fails_on_failure:
  assumes f: "from_cont f"
  shows "f (\<lambda>s' c'. None) s c = None"
  using from_contD[OF f, of "\<lambda>s' c'. None" s c] by (cases "f (\<lambda>s' c'. None) s c") auto

lemma repeat_greedy_from_cont:
  assumes f: "from_cont f"
  shows "repeat_greedy f k fuel s c = Some res \<Longrightarrow>
         \<exists>s' c'. k s' c' = Some res \<and> length s' \<le> length s"
proof (induction fuel arbitrary: s c)
  case Nil
  then show ?case by auto
next
  case (Cons x fuel)
  let ?K = "\<lambda>s' c'. if length s' < length s then repeat_greedy f k fuel s' c' else None"
  show ?case
  proof (cases "f ?K s c")
    case None
    with Cons.prems have "k s c = Some res" by simp
    then show ?thesis by auto
  next
    case (Some r)
    with Cons.prems have "f ?K s c = Some res" by simp
    from from_contD[OF f this] obtain s' c' where
      "?K s' c' = Some res" "length s' \<le> length s" by blast
    then have "repeat_greedy f k fuel s' c' = Some res" "length s' < length s"
      by (auto split: if_splits)
    from Cons.IH[OF this(1)] this(2) show ?thesis
      by (meson le_trans less_imp_le)
  qed
qed

lemma repeat_lazy_from_cont:
  assumes f: "from_cont f"
  shows "repeat_lazy f k fuel s c = Some res \<Longrightarrow>
         \<exists>s' c'. k s' c' = Some res \<and> length s' \<le> length s"
proof (induction fuel arbitrary: s c)
  case Nil
  then show ?case by auto
next
  case (Cons x fuel)
  let ?K = "\<lambda>s' c'. if length s' < length s then repeat_lazy f k fuel s' c' else None"
  show ?case
  proof (cases "k s c")
    case (Some r)
    with Cons.prems have "k s c = Some res" by simp
    then show ?thesis by auto
  next
    case None
    with Cons.prems have "f ?K s c = Some res" by simp
    from from_contD[OF f this] obtain s' c' where
      "?K s' c' = Some res" "length s' \<le> length s" by blast
    then have "repeat_lazy f k fuel s' c' = Some res" "length s' < length s"
      by (auto split: if_splits)
    from Cons.IH[OF this(1)] this(2) show ?thesis
      by (meson le_trans less_imp_le)
  qed
qed

lemma one_char_from_cont: "from_cont (one_char p)"
  unfolding from_cont_def one_char_def
  by (auto split: list.splits if_splits)

lemma matcher_from_cont: "from_cont (matcher ic r)"
proof (induction r)
  case (Seq a b)
  show ?case unfolding from_cont_def
  proof (intro allI impI)
    fix k s c res assume "matcher ic (Seq a b) k s c = Some res"
    then have "matcher ic a (matcher ic b k) s c = Some res" by simp
    from from_contD[OF Seq.IH(1) this] obtain s1 c1 where
      1: "matcher ic b k s1 c1 = Some res" "length s1 \<le> length s" by blast
    from from_contD[OF Seq.IH(2) 1(1)] 1(2)
    show "\<exists>s' c'. k s' c' = Some res \<and> length s' \<le> length s"
      by (meson le_trans)
  qed
next
  case (Alt a b)
  show ?case unfolding from_cont_def
  proof (intro allI impI)
    fix k s c res assume h: "matcher ic (Alt a b) k s c = Some res"
    show "\<exists>s' c'. k s' c' = Some res \<and> length s' \<le> length s"
    proof (cases "matcher ic a k s c")
      case None
      with h have "matcher ic b k s c = Some res" by simp
      from from_contD[OF Alt.IH(2) this] show ?thesis .
    next
      case (Some r)
      with h have "matcher ic a k s c = Some res" by simp
      from from_contD[OF Alt.IH(1) this] show ?thesis .
    qed
  qed
next
  case (Opt r)
  show ?case unfolding from_cont_def
  proof (intro allI impI)
    fix k s c res assume h: "matcher ic (Opt r) k s c = Some res"
    let ?K = "\<lambda>s' c'. if length s' < length s then k s' c' else None"
    show "\<exists>s' c'. k s' c' = Some res \<and> length s' \<le> length s"
    proof (cases "matcher ic r ?K s c")
      case None
      with h have "k s c = Some res" by simp
      then show ?thesis by auto
    next
      case (Some x)
      with h have "matcher ic r ?K s c = Some res" by simp
      from from_contD[OF Opt.IH this] show ?thesis
        by (auto split: if_splits)
    qed
  qed
next
  case (Star r)
  show ?case unfolding from_cont_def
    using repeat_greedy_from_cont[OF Star.IH] by simp
next
  case (Plus r)
  show ?case unfolding from_cont_def
  proof (intro allI impI)
    fix k s c res assume "matcher ic (Plus r) k s c = Some res"
    then have "matcher ic r (\<lambda>s' c'. repeat_greedy (matcher ic r) k s' s' c') s c = Some res"
      by simp
    from from_contD[OF Plus.IH this] obtain s1 c1 where
      1: "repeat_greedy (matcher ic r) k s1 s1 c1 = Some res" "length s1 \<le> length s" by blast
    from repeat_greedy_from_cont[OF Plus.IH 1(1)] 1(2)
    show "\<exists>s' c'. k s' c' = Some res \<and> length s' \<le> length s"
      by (meson le_trans)
  qed
next
  case (LazyStar r)
  show ?case unfolding from_cont_def
    using repeat_lazy_from_cont[OF LazyStar.IH] by simp
next
  case (Grp r)
  show ?case unfolding from_cont_def
  proof (intro allI impI)
    fix k s c res assume "matcher ic (Grp r) k s c = Some res"
    then have "matcher ic r (\<lambda>s' c'. k s' (Some (take (length s - length s') s))) s c = Some res"
      by simp
    from from_contD[OF Grp.IH this]
    show "\<exists>s' c'. k s' c' = Some res \<and> length s' \<le> length s" by blast
  qed
qed (use one_char_from_cont in \<open>auto simp: from_cont_def split: if_splits\<close>)

text \<open>Fuel that covers the rest of the input is as good as any other such fuel.\<close>

lemma repeat_greedy_fuel:
  assumes f: "from_cont f"
  shows "length s \<le> length fuel1 \<Longrightarrow> length s \<le> length fuel2 \<Longrightarrow>
         repeat_greedy f k fuel1 s c = repeat_greedy f k fuel2 s c"
proof (induction "length s" arbitrary: s fuel1 fuel2 c rule: less_induct)
  case less
  have step: "repeat_greedy f k (x # fuel) s c =
        (case f (\<lambda>s' c'. if length s' < length s then repeat_greedy f k s' s' c' else None) s c of
           Some r \<Rightarrow> Some r | None \<Rightarrow> k s c)"
    if "length s \<le> Suc (length fuel)" for x fuel
  proof -
    have "(\<lambda>s' c'. if length s' < length s then repeat_greedy f k fuel s' c' else None)
        = (\<lambda>s' c'. if length s' < length s then repeat_greedy f k s' s' c' else None)"
      using less.hyps that by (intro ext) auto
    then show ?thesis by (simp cong del: option.case_cong_weak)
  qed
  have nil: "repeat_greedy f k [] s c =
        (case f (\<lambda>s' c'. if length s' < length s then repeat_greedy f k s' s' c' else None) s c of
           Some r \<Rightarrow> Some r | None \<Rightarrow> k s c)"
    if "s = []"
    using that fails_on_failure[OF f] by simp
  show ?case
    using less.prems step nil by (cases fuel1; cases fuel2) auto
qed

lemma repeat_lazy_fuel:
  assumes f: "from_cont f"
  shows "length s \<le> length fuel1 \<Longrightarrow> length s \<le> length fuel2 \<Longrightarrow>
         repeat_lazy f k fuel1 s c = repeat_lazy f k fuel2 s c"
proof (induction "length s" arbitrary: s fuel1 fuel2 c rule: less_induct)
  case less
  have step: "repeat_lazy f k (x # fuel) s c =
        (case k s c of
           Some r \<Rightarrow> Some r
         | None \<Rightarrow>
             f (\<lambda>s' c'. if length s' < length s then repeat_lazy f k s' s' c' else None) s c)"
    if "length s \<le> Suc (length fuel)" for x fuel
  proof -
    have "(\<lambda>s' c'. if length s' < length s then repeat_lazy f k fuel s' c' else None)
        = (\<lambda>s' c'. if length s' < length s then repeat_lazy f k s' s' c' else None)"
      using less.hyps that by (intro ext) auto
    then show ?thesis by (simp cong del: option.case_cong_weak)
  qed
  have nil: "repeat_lazy f k [] s c =
        (case k s c of
           Some r \<Rightarrow> Some r
         | None \<Rightarrow>
             f (\<lambda>s' c'. if length s' < length s then repeat_lazy f k s' s' c' else None) s c)"
    if "s = []"
    using that fails_on_failure[OF f] by (simp split: option.splits)
  show ?case
    using less.prems step nil by (cases fuel1; cases fuel2) auto
qed

text \<open>
  RepeatMatcher as the specification states it: try one more iteration that consumes
  something, then the rest of the pattern (greedy), or the other way round (lazy).
\<close>

lemma matcher_Star_unfold:
  "matcher ic (Star r) k s c =
     (case matcher ic r (\<lambda>s' c'. if length s' < length s then matcher ic (Star r) k s' c'
                                  else None) s c of
        Some res \<Rightarrow> Some res
      | None \<Rightarrow> k s c)"
proof (cases s)
  case Nil
  then show ?thesis using fails_on_failure[OF matcher_from_cont] by simp
next
  case (Cons z zs)
  have "(\<lambda>s' c'. if length s' < length s then repeat_greedy (matcher ic r) k zs s' c' else None)
      = (\<lambda>s' c'. if length s' < length s then repeat_greedy (matcher ic r) k s' s' c' else None)"
    using Cons repeat_greedy_fuel[OF matcher_from_cont] by (intro ext) auto
  then show ?thesis using Cons by (simp cong del: option.case_cong_weak if_weak_cong)
qed

lemma matcher_LazyStar_unfold:
  "matcher ic (LazyStar r) k s c =
     (case k s c of
        Some res \<Rightarrow> Some res
      | None \<Rightarrow>
          matcher ic r (\<lambda>s' c'. if length s' < length s then matcher ic (LazyStar r) k s' c'
                                 else None) s c)"
proof (cases s)
  case Nil
  then show ?thesis using fails_on_failure[OF matcher_from_cont] by (simp split: option.splits)
next
  case (Cons z zs)
  have "(\<lambda>s' c'. if length s' < length s then repeat_lazy (matcher ic r) k zs s' c' else None)
      = (\<lambda>s' c'. if length s' < length s then repeat_lazy (matcher ic r) k s' s' c' else None)"
    using Cons repeat_lazy_fuel[OF matcher_from_cont] by (intro ext) auto
  then show ?thesis using Cons by (simp cong del: option.case_cong_weak if_weak_cong)
qed

section \<open>Matches consume input\<close>

lemma consumesD:
  "consumes f n \<Longrightarrow> f k s c = Some res \<Longrightarrow>
   \<exists>s' c'. k s' c' = Some res \<and> length s' + n \<le> length s"
  unfolding consumes_def by blast

lemma from_cont_consumes: "from_cont f \<Longrightarrow> consumes f 0"
  unfolding from_cont_def consumes_def by simp

lemma consumes_from_cont: "consumes f n \<Longrightarrow> from_cont f"
  unfolding from_cont_def consumes_def by (meson add_leD1)

lemma one_char_consumes: "consumes (one_char p) 1"
  unfolding consumes_def one_char_def
  by (auto split: list.splits if_splits)

lemma matcher_consumes: "consumes (matcher ic r) (min_len r)"
proof (induction r)
  case (Seq a b)
  show ?case unfolding consumes_def
  proof (intro allI impI)
    fix k s c res assume "matcher ic (Seq a b) k s c = Some res"
    then have "matcher ic a (matcher ic b k) s c = Some res" by simp
    from consumesD[OF Seq.IH(1) this] obtain s1 c1 where
      1: "matcher ic b k s1 c1 = Some res" "length s1 + min_len a \<le> length s" by blast
    from consumesD[OF Seq.IH(2) 1(1)] obtain s2 c2 where
      2: "k s2 c2 = Some res" "length s2 + min_len b \<le> length s1" by blast
    with 1(2) show "\<exists>s' c'. k s' c' = Some res \<and> length s' + min_len (Seq a b) \<le> length s"
      by (intro exI[of _ s2] exI[of _ c2]) simp
  qed
next
  case (Alt a b)
  show ?case unfolding consumes_def
  proof (intro allI impI)
    fix k s c res assume h: "matcher ic (Alt a b) k s c = Some res"
    show "\<exists>s' c'. k s' c' = Some res \<and> length s' + min_len (Alt a b) \<le> length s"
    proof (cases "matcher ic a k s c")
      case None
      with h have "matcher ic b k s c = Some res" by simp
      from consumesD[OF Alt.IH(2) this] show ?thesis by (auto intro: le_trans[rotated])
    next
      case (Some r)
      with h have "matcher ic a k s c = Some res" by simp
      from consumesD[OF Alt.IH(1) this] show ?thesis by (auto intro: le_trans[rotated])
    qed
  qed
next
  case (Plus r)
  show ?case unfolding consumes_def
  proof (intro allI impI)
    fix k s c res assume "matcher ic (Plus r) k s c = Some res"
    then have "matcher ic r (\<lambda>s' c'. repeat_greedy (matcher ic r) k s' s' c') s c = Some res"
      by simp
    from consumesD[OF Plus.IH this] obtain s1 c1 where
      1: "repeat_greedy (matcher ic r) k s1 s1 c1 = Some res" "length s1 + min_len r \<le> length s"
      by blast
    from repeat_greedy_from_cont[OF matcher_from_cont 1(1)] obtain s2 c2 where
      "k s2 c2 = Some res" "length s2 \<le> length s1" by blast
    with 1(2) show "\<exists>s' c'. k s' c' = Some res \<and> length s' + min_len (Plus r) \<le> length s"
      by (intro exI[of _ s2] exI[of _ c2]) simp
  qed
next
  case (Grp r)
  show ?case unfolding consumes_def
  proof (intro allI impI)
    fix k s c res assume "matcher ic (Grp r) k s c = Some res"
    then have "matcher ic r (\<lambda>s' c'. k s' (Some (take (length s - length s') s))) s c = Some res"
      by simp
    from consumesD[OF Grp.IH this]
    show "\<exists>s' c'. k s' c' = Some res \<and> length s' + min_len (Grp r) \<le> length s" by auto
  qed
next
  case (Opt r)
  show ?case
    using from_cont_consumes[OF matcher_from_cont, of ic "Opt r"] by (simp only: min_len.simps)
next
  case (Star r)
  show ?case
    using from_cont_consumes[OF matcher_from_cont, of ic "Star r"] by (simp only: min_len.simps)
next
  case (LazyStar r)
  show ?case
    using from_cont_consumes[OF matcher_from_cont, of ic "LazyStar r"] by (simp only: min_len.simps)
qed (use one_char_consumes in \<open>auto simp: consumes_def split: if_splits\<close>)

lemma match_at_length:
  assumes "match_at ic r i s = Some m"
  shows "m_index m = i \<and> min_len r \<le> length (m_all m) \<and> length (m_all m) \<le> length s"
proof -
  from assms obtain s' c' where
    1: "matcher ic r (\<lambda>s' c'. Some (s', c')) s None = Some (s', c')" and
    m: "m = \<lparr>m_index = i, m_all = take (length s - length s') s, m_group1 = c'\<rparr>"
    by (auto simp: match_at_def split: option.splits)
  from consumesD[OF matcher_consumes 1] have "length s' + min_len r \<le> length s" by auto
  with m show ?thesis by auto
qed

lemma search_bounds:
  "search ic r i s = Some m \<Longrightarrow>
   i \<le> m_index m \<and> m_index m + length (m_all m) \<le> i + length s \<and>
   min_len r \<le> length (m_all m)"
proof (induction s arbitrary: i)
  case Nil
  then have "match_at ic r i [] = Some m" by simp
  from match_at_length[OF this] show ?case by auto
next
  case (Cons x xs)
  show ?case
  proof (cases "match_at ic r i (x # xs)")
    case None
    with Cons.prems have "search ic r (Suc i) xs = Some m" by simp
    from Cons.IH[OF this] show ?thesis by simp
  next
    case (Some m')
    with Cons.prems have "match_at ic r i (x # xs) = Some m" by simp
    from match_at_length[OF this] show ?thesis by simp
  qed
qed

section \<open>The loops of the extraction\<close>

lemma json_scan_null:
  "fst (regexp_exec re html) = None \<Longrightarrow> json_scan parse re html v = Some v"
  by (subst json_scan.simps) (auto split: prod.splits)

lemma json_scan_step:
  "fst (regexp_exec re html) = Some m \<Longrightarrow>
   json_scan parse re html v =
   json_scan parse (snd (regexp_exec re html)) html (json_block parse m v)"
  by (subst json_scan.simps) (auto split: prod.splits)

lemma video_scan_null:
  "fst (regexp_exec re html) = None \<Longrightarrow> video_scan re html = Some None"
  by (subst video_scan.simps) (auto split: prod.splits)

lemma video_scan_step:
  "fst (regexp_exec re html) = Some m \<Longrightarrow>
   video_scan re html =
   (if video_candidate_ok (m_group1 m) then Some (m_group1 m)
    else video_scan (snd (regexp_exec re html)) html)"
  by (subst video_scan.simps) (auto split: prod.splits)

lemma exec_nonglobal: "\<not> re_global re \<Longrightarrow> snd (regexp_exec re html) = re"
  by (simp add: regexp_exec_def Let_def split: option.splits)

text \<open>
  The inner loop of the video fallback returns only when the regex object is not
  stuck on a rejected candidate.
\<close>

lemma video_scan_Some_not_stuck:
  assumes "video_scan re html = Some y"
  shows "\<not> rejects_forever re html"
proof (rule video_scan.raw_induct[OF _ assms])
  fix f re html y
  assume IH: "\<And>re html y. f re html = Some y \<Longrightarrow> \<not> rejects_forever re html"
    and step: "(case regexp_exec re html of (None, re') \<Rightarrow> Some None
                | (Some m, re') \<Rightarrow> if video_candidate_ok (m_group1 m) then Some (m_group1 m)
                                   else f re' html) = Some y"
  show "\<not> rejects_forever re html"
  proof
    assume st: "rejects_forever re html"
    then obtain m where m: "fst (regexp_exec re html) = Some m" "\<not> video_candidate_ok (m_group1 m)"
      by (auto simp: rejects_forever_def split: option.splits)
    have re': "snd (regexp_exec re html) = re"
      using st exec_nonglobal by (simp add: rejects_forever_def)
    have "regexp_exec re html = (Some m, re)" using m re' by (metis prod.collapse)
    with step m(2) have "f re html = Some y" by simp
    from IH[OF this] st show False by blast
  qed
qed

lemma video_scan_stuck: "rejects_forever re html \<Longrightarrow> video_scan re html = None"
  using video_scan_Some_not_stuck[of re html] by (cases "video_scan re html") auto

lemma video_scan_found_ok:
  assumes "video_scan re html = Some y"
  shows "y = None \<or> video_candidate_ok y"
proof (rule video_scan.raw_induct[OF _ assms])
  fix f re html y
  assume IH: "\<And>re html y. f re html = Some y \<Longrightarrow> y = None \<or> video_candidate_ok y"
    and step: "(case regexp_exec re html of (None, re') \<Rightarrow> Some None
                | (Some m, re') \<Rightarrow> if video_candidate_ok (m_group1 m) then Some (m_group1 m)
                                   else f re' html) = Some y"
  show "y = None \<or> video_candidate_ok y"
    using step IH by (auto split: prod.splits option.splits if_splits)
qed




section \<open>Which loops end\<close>

text \<open>
  With the g flag and a pattern that cannot match the empty string, every match
  moves \<open>lastIndex\<close> forward, within the input.
\<close>

lemma exec_progress:
  assumes "re_global re" and "0 < min_len (re_source re)"
    and "regexp_exec re s = (Some m, re')"
  shows "re_lastIndex re < re_lastIndex re' \<and> re_lastIndex re' \<le> length s \<and>
         re' = re\<lparr>re_lastIndex := re_lastIndex re'\<rparr>"
proof -
  from assms(1,3) have le: "re_lastIndex re \<le> length s"
    and se: "search (re_ignoreCase re) (re_source re) (re_lastIndex re)
               (drop (re_lastIndex re) s) = Some m"
    and re': "re' = re\<lparr>re_lastIndex := m_index m + length (m_all m)\<rparr>"
    by (auto simp: regexp_exec_def Let_def split: if_splits option.splits)
  from search_bounds[OF se] assms(2) le re' show ?thesis by auto
qed

lemma exec_None_resets:
  "re_global re \<Longrightarrow> regexp_exec re s = (None, re') \<Longrightarrow> re' = re\<lparr>re_lastIndex := 0\<rparr>"
  by (auto simp: regexp_exec_def Let_def split: if_splits option.splits)

text \<open>The loops over a regex object with the g flag end.\<close>

lemma json_scan_terminates:
  assumes "re_global re" and "0 < min_len (re_source re)"
  shows "\<exists>v'. json_scan parse re html v = Some v'"
  using assms
proof (induction "Suc (length html) - re_lastIndex re" arbitrary: re v rule: less_induct)
  case less
  show ?case
  proof (cases "regexp_exec re html")
    case (Pair a re')
    show ?thesis
    proof (cases a)
      case None
      with Pair show ?thesis by (subst json_scan.simps) simp
    next
      case (Some m)
      from exec_progress[OF less.prems Pair[unfolded Some]]
      have p: "re_lastIndex re < re_lastIndex re'" "re_lastIndex re' \<le> length html"
        "re' = re\<lparr>re_lastIndex := re_lastIndex re'\<rparr>" by auto
      then have g: "re_global re'" "0 < min_len (re_source re')"
        using less.prems by (metis regexp.select_convs(3) regexp.surjective regexp.update_convs(4),
            metis regexp.select_convs(1) regexp.surjective regexp.update_convs(4))
      have "\<exists>v'. json_scan parse re' html (json_block parse m v) = Some v'"
        using p g by (intro less.hyps) auto
      with Pair Some show ?thesis by (subst json_scan.simps) simp
    qed
  qed
qed

lemma video_scan_terminates:
  assumes "re_global re" and "0 < min_len (re_source re)"
  shows "\<exists>y. video_scan re html = Some y"
  using assms
proof (induction "Suc (length html) - re_lastIndex re" arbitrary: re rule: less_induct)
  case less
  show ?case
  proof (cases "regexp_exec re html")
    case (Pair a re')
    show ?thesis
    proof (cases a)
      case None
      with Pair show ?thesis by (subst video_scan.simps) simp
    next
      case (Some m)
      from exec_progress[OF less.prems Pair[unfolded Some]]
      have p: "re_lastIndex re < re_lastIndex re'" "re_lastIndex re' \<le> length html"
        "re' = re\<lparr>re_lastIndex := re_lastIndex re'\<rparr>" by auto
      then have g: "re_global re'" "0 < min_len (re_source re')"
        using less.prems by (metis regexp.select_convs(3) regexp.surjective regexp.update_convs(4),
            metis regexp.select_convs(1) regexp.surjective regexp.update_convs(4))
      have "\<exists>y. video_scan re' html = Some y"
        using p g by (intro less.hyps) auto
      with Pair Some show ?thesis by (subst video_scan.simps) simp
    qed
  qed
qed

text \<open>
  Without the g flag the loop of the video fallback ends only if there is no match
  or the first match is accepted.
\<close>

lemma video_scan_nonglobal:
  assumes "\<not> re_global re"
  shows "video_scan re html =
     (case fst (regexp_exec re html) of
        None \<Rightarrow> Some None
      | Some m \<Rightarrow> if video_candidate_ok (m_group1 m) then Some (m_group1 m) else None)"
proof (cases "fst (regexp_exec re html)")
  case None
  then show ?thesis by (simp add: video_scan_null)
next
  case (Some m)
  show ?thesis
  proof (cases "video_candidate_ok (m_group1 m)")
    case True
    with Some show ?thesis by (simp add: video_scan_step)
  next
    case False
    with Some assms have "rejects_forever re html" by (simp add: rejects_forever_def)
    from video_scan_stuck[OF this] Some False show ?thesis by simp
  qed
qed


lemma video_fallback_None_iff:
  assumes "\<forall>p\<in>set ps. re_global p \<longrightarrow> 0 < min_len (re_source p)" and "\<not> truthy cur"
  shows "video_fallback ps html cur = None \<longleftrightarrow> hangs ps html"
  using assms
proof (induction ps)
  case Nil
  then show ?case by simp
next
  case (Cons p ps)
  then have IH: "video_fallback ps html cur = None \<longleftrightarrow> hangs ps html" by simp
  show ?case
  proof (cases "re_global p")
    case True
    with Cons.prems obtain y where y: "video_scan p html = Some y"
      using video_scan_terminates[of p html] by auto
    from True have nr: "\<not> rejects_forever p html" by (simp add: rejects_forever_def)
    show ?thesis
    proof (cases y)
      case None
      with y nr IH Cons.prems(2) show ?thesis by (simp add: Let_def)
    next
      case (Some u)
      with video_scan_found_ok[OF y] have "u \<noteq> []" by (simp add: video_candidate_ok_def)
      with y Some nr show ?thesis by (simp add: Let_def)
    qed
  next
    case False
    note ng = video_scan_nonglobal[OF False, of html]
    show ?thesis
    proof (cases "fst (regexp_exec p html)")
      case None
      with ng False IH Cons.prems(2) show ?thesis
        by (simp add: Let_def rejects_forever_def)
    next
      case (Some m)
      show ?thesis
      proof (cases "video_candidate_ok (m_group1 m)")
        case True
        then obtain u where u: "m_group1 m = Some u" "u \<noteq> []"
          by (auto simp: video_candidate_ok_def split: option.splits)
        with ng Some True False show ?thesis
          by (simp add: Let_def rejects_forever_def)
      next
        case False
        with ng Some \<open>\<not> re_global p\<close> show ?thesis
          by (simp add: rejects_forever_def)
      qed
    qed
  qed
qed

lemma min_len_patterns:
  "0 < min_len (re_source jsonScriptPattern)"
  "\<forall>p\<in>set videoUrlPatterns. re_global p \<longrightarrow> 0 < min_len (re_source p)"
  by (simp_all add: jsonScriptPattern_def videoUrlPatterns_def quoted_url_pattern_def
      quoted_video_url_pattern_def key_pattern_def new_regexp_def seqs_def lit_def quote_def)

lemma json_scan_returns: "\<exists>v'. json_scan parse jsonScriptPattern html v = Some v'"
  by (rule json_scan_terminates) (simp_all add: min_len_patterns, simp add: jsonScriptPattern_def new_regexp_def)

text \<open>
  The call does not return exactly when the header steps raise nothing, the video
  URL is still empty after the script blocks, and the loop over \<open>videoUrlPatterns\<close>
  hangs.
\<close>

lemma extract_None_iff:
  "extractVideoInfoFromHtml parse html url = None \<longleftrightarrow>
   (\<exists>v1 v2. head_fields html = Inr v1 \<and> json_scan parse jsonScriptPattern html v1 = Some v2 \<and>
             \<not> truthy (var_videoUrl v2) \<and> hangs videoUrlPatterns html)"
proof (cases "head_fields html")
  case (Inl e)
  then show ?thesis
    by (simp add: extractVideoInfoFromHtml_def extract_try_def cascade_def)
next
  case (Inr v1)
  from json_scan_returns obtain v2 where
    j: "json_scan parse jsonScriptPattern html v1 = Some v2" by blast
  show ?thesis
  proof (cases "truthy (var_videoUrl v2)")
    case True
    with Inr j show ?thesis
      by (simp add: extractVideoInfoFromHtml_def extract_try_def cascade_def Let_def
          split: sum.splits)
  next
    case False
    from video_fallback_None_iff[OF min_len_patterns(2) False]
    have "video_fallback videoUrlPatterns html (var_videoUrl v2) = None \<longleftrightarrow>
          hangs videoUrlPatterns html" .
    with Inr j False show ?thesis
      by (auto simp: extractVideoInfoFromHtml_def extract_try_def cascade_def Let_def
          split: sum.splits option.splits)
  qed
qed


section \<open>What a returned object looks like\<close>

lemma extract_cases:
  "extractVideoInfoFromHtml parse html url = Some (Inr (Some d)) \<longleftrightarrow>
   (\<exists>v. cascade parse html = Some (Inr v) \<and> finish v = Inr (Some d))"
  by (auto simp: extractVideoInfoFromHtml_def extract_try_def split: option.splits sum.splits)

lemma finish_complete:
  assumes "finish v = Inr (Some d)"
  shows "(\<exists>s. videoUrl d = JStr s \<and> s \<noteq> []) \<and> truthy (title d) \<and> truthy (author d) \<and>
         quality d = str ''720p'' \<and> fileSize d = []"
proof -
  from assms obtain vid thumb audio where
    1: "unescape_if_set (var_videoUrl v) = Inr vid" and
    3: "truthy vid" and
    d: "d = \<lparr>title = js_or (var_title v) (JStr (str ''Kuaishou Video'')),
             author = js_or (var_author v) (JStr (str ''Unknown'')),
             thumbnail = thumb, videoUrl = vid, audioUrl = js_or audio JUndefined,
             quality = str ''720p'', fileSize = []\<rparr>"
    by (auto simp: finish_def split: sum.splits if_splits)
  from 1 3 have tv: "truthy (var_videoUrl v)"
    by (auto simp: unescape_if_set_def split: if_splits)
  with 1 obtain s where "vid = JStr s"
    by (cases "var_videoUrl v") (auto simp: unescape_if_set_def string_method_def)
  with 3 d show ?thesis by (simp add: js_or_def str_def)
qed

text \<open>
  Whenever the call returns, it returns null or a complete object: a non-empty
  string as \<open>videoUrl\<close>, a truthy title and author, and the fixed quality.
\<close>

lemma extract_returns_complete:
  assumes "extractVideoInfoFromHtml parse html url = Some r"
  shows "r = Inr None \<or>
         (\<exists>d. r = Inr (Some d) \<and> (\<exists>s. videoUrl d = JStr s \<and> s \<noteq> []) \<and> truthy (title d) \<and>
               truthy (author d) \<and> quality d = str ''720p'' \<and> fileSize d = [])"
proof (cases r)
  case (Inl e)
  with assms show ?thesis
    by (auto simp: extractVideoInfoFromHtml_def split: option.splits sum.splits)
next
  case (Inr x)
  show ?thesis
  proof (cases x)
    case None
    with Inr show ?thesis by simp
  next
    case (Some d)
    with Inr assms obtain v where "finish v = Inr (Some d)" by (auto simp: extract_cases)
    from finish_complete[OF this] Inr Some show ?thesis by simp
  qed
qed

section \<open>The two replacements compute the specification's unescaping\<close>

text \<open>
  A pattern that is a sequence of literals matches exactly where the input starts
  with them; so \<^verbatim>\<open>.replace(/\\u002F/g, "/")\<close> is \<open>spec_replace_u002F\<close>,
  \<^verbatim>\<open>.replace(/\\/g, "")\<close> is \<open>spec_strip_backslashes\<close>, and \<open>unescape\<close> is
  \<open>spec_unescape\<close>. The last lemmas say what \<open>spec_unescape\<close> does without its
  recursion: text without a backslash is kept, a \<^verbatim>\<open>\u002F\<close> after such text becomes
  a slash, any other backslash disappears.
\<close>

lemma matcher_lits:
  "matcher False (seqs (map Lit cs)) k s c =
     (if starts_with s cs then k (drop (length cs) s) c else None)"
proof (induction cs arbitrary: s)
  case Nil
  show ?case by (simp add: seqs_def starts_with_def)
next
  case (Cons a cs)
  have "seqs (map Lit (a # cs)) = Seq (Lit a) (seqs (map Lit cs))"
    by (simp add: seqs_def)
  then show ?case
    using Cons.IH
    by (cases s) (auto simp: one_char_def canonicalize_def starts_with_def)
qed

lemma starts_with_length: "starts_with s p \<Longrightarrow> length p \<le> length s"
  by (metis starts_with_def length_take min.cobounded1 min.commute)

lemma match_at_lits:
  "match_at False (seqs (map Lit cs)) i s =
     (if starts_with s cs then Some \<lparr>m_index = i, m_all = cs, m_group1 = None\<rparr> else None)"
proof (cases "starts_with s cs")
  case True
  then have "length cs \<le> length s" by (rule starts_with_length)
  then have "take (length s - (length s - length cs)) s = cs"
    using True by (simp add: starts_with_def)
  then show ?thesis using True by (simp add: match_at_def matcher_lits)
next
  case False
  then show ?thesis by (simp add: match_at_def matcher_lits)
qed

lemma replace_u002F_spec:
  "replace_matches False (seqs (map Lit u002F)) [47] s = spec_replace_u002F s"
proof (induction s rule: spec_replace_u002F.induct)
  case 1
  show ?case
    by (simp add: replace_matches.simps match_at_lits) (simp add: starts_with_def u002F_def)
next
  case (2 x xs)
  show ?case
  proof (cases "starts_with (x # xs) u002F")
    case True
    have "length u002F = 6" by (simp add: u002F_def)
    then show ?thesis using True 2(1)
      by (simp add: replace_matches.simps(2) match_at_lits) (simp add: u002F_def)
  next
    case False
    then show ?thesis using 2(2)
      by (simp add: replace_matches.simps(2) match_at_lits)
  qed
qed

lemma match_at_backslash:
  "match_at False (Lit 92) i s =
     (case s of [] \<Rightarrow> None
      | x # xs \<Rightarrow> if x = 92 then Some \<lparr>m_index = i, m_all = [x], m_group1 = None\<rparr> else None)"
  by (cases s) (auto simp: match_at_def one_char_def canonicalize_def)

lemma strip_backslashes_spec:
  "replace_matches False (Lit 92) [] s = spec_strip_backslashes s"
proof (induction s)
  case Nil
  show ?case by (simp add: replace_matches.simps match_at_backslash spec_strip_backslashes_def)
next
  case (Cons x xs)
  then show ?case
    by (simp add: replace_matches.simps(2) match_at_backslash
        spec_strip_backslashes_def)
qed

lemma unescape_spec: "unescape s = spec_unescape s"
  by (simp add: unescape_def spec_unescape_def string_replace_all_def u002F_pattern_def
      backslash_pattern_def new_regexp_def replace_u002F_spec strip_backslashes_spec)

lemma spec_replace_u002F_no_backslash:
  "92 \<notin> set s \<Longrightarrow> spec_replace_u002F s = s"
  by (induction s) (auto simp: starts_with_def u002F_def)

lemma spec_replace_u002F_at:
  "92 \<notin> set pre \<Longrightarrow>
   spec_replace_u002F (pre @ u002F @ post) = pre @ 47 # spec_replace_u002F post"
proof (induction pre)
  case Nil
  show ?case by (simp add: starts_with_def u002F_def)
next
  case (Cons x pre)
  then show ?case by (auto simp: starts_with_def u002F_def)
qed

lemma spec_unescape_at:
  "92 \<notin> set pre \<Longrightarrow> spec_unescape (pre @ u002F @ post) = pre @ 47 # spec_unescape post"
  by (auto simp: spec_unescape_def spec_replace_u002F_at spec_strip_backslashes_def
      filter_id_conv)

lemma spec_replace_u002F_backslash:
  "92 \<notin> set pre \<Longrightarrow> \<not> starts_with (92 # post) u002F \<Longrightarrow>
   spec_replace_u002F (pre @ 92 # post) = pre @ 92 # spec_replace_u002F post"
  by (induction pre) (auto simp: starts_with_def u002F_def)

lemma spec_unescape_backslash:
  "92 \<notin> set pre \<and> \<not> starts_with (92 # post) u002F \<Longrightarrow>
   spec_unescape (pre @ 92 # post) = pre @ spec_unescape post"
  by (auto simp: spec_unescape_def spec_replace_u002F_backslash spec_strip_backslashes_def
      filter_id_conv)

lemma spec_unescape_keeps: "92 \<notin> set pre \<Longrightarrow> spec_unescape pre = pre"
  by (auto simp: spec_unescape_def spec_replace_u002F_no_backslash spec_strip_backslashes_def
      filter_id_conv)

lemma spec_unescape_no_backslash: "92 \<notin> set (spec_unescape s)"
  by (simp add: spec_unescape_def spec_strip_backslashes_def)

section \<open>The store does not change what an invocation returns\<close>

text \<open>
  A loop on an address does what the loop on the object at that address does, and
  writes only to that address: by induction over the loop on the address for one
  direction and over the loop on the object for the other. The addresses an
  invocation uses are those of the objects it has made itself, so its result is the
  one of \<open>extractVideoInfoFromHtml\<close>, whatever the store holds at the start.
\<close>

lemma exec_at_eq:
  "exec_at a s st = (fst (regexp_exec (st ! a) s), st[a := snd (regexp_exec (st ! a) s)])"
  by (simp add: exec_at_def split: prod.splits)

lemma json_scan_at_sound:
  assumes "json_scan_at parse a html v st = Some y"
  shows "a < length st \<longrightarrow>
         json_scan parse (st ! a) html v = Some (fst y) \<and> (\<exists>re. snd y = st[a := re])"
proof (rule json_scan_at.raw_induct[OF _ assms])
  fix f parse a html v st y
  assume IH: "\<And>parse a html v st y. f parse a html v st = Some y \<Longrightarrow>
                a < length st \<longrightarrow>
                json_scan parse (st ! a) html v = Some (fst y) \<and> (\<exists>re. snd y = st[a := re])"
    and step: "(case exec_at a html st of
                  (None, st') \<Rightarrow> Some (v, st')
                | (Some m, st') \<Rightarrow> f parse a html (json_block parse m v) st') = Some y"
  show "a < length st \<longrightarrow>
        json_scan parse (st ! a) html v = Some (fst y) \<and> (\<exists>re. snd y = st[a := re])"
  proof
    assume a: "a < length st"
    let ?st' = "st[a := snd (regexp_exec (st ! a) html)]"
    show "json_scan parse (st ! a) html v = Some (fst y) \<and> (\<exists>re. snd y = st[a := re])"
    proof (cases "fst (regexp_exec (st ! a) html)")
      case None
      with step have "y = (v, ?st')" by (simp add: exec_at_eq)
      then show ?thesis using json_scan_null[OF None] by auto
    next
      case (Some m)
      with step have "f parse a html (json_block parse m v) ?st' = Some y"
        by (simp add: exec_at_eq)
      from IH[OF this] a
      have "json_scan parse (?st' ! a) html (json_block parse m v) = Some (fst y) \<and>
            (\<exists>re. snd y = ?st'[a := re])"
        by simp
      then show ?thesis using a json_scan_step[OF Some] by auto
    qed
  qed
qed

lemma json_scan_at_complete:
  assumes "json_scan parse re html v = Some v'"
  shows "\<forall>st a. a < length st \<and> st ! a = re \<longrightarrow>
           (\<exists>st'. json_scan_at parse a html v st = Some (v', st'))"
proof (rule json_scan.raw_induct[OF _ assms])
  fix f parse re html v v'
  assume IH: "\<And>parse re html v v'. f parse re html v = Some v' \<Longrightarrow>
                \<forall>st a. a < length st \<and> st ! a = re \<longrightarrow>
                  (\<exists>st'. json_scan_at parse a html v st = Some (v', st'))"
    and step: "(case regexp_exec re html of
                  (None, re') \<Rightarrow> Some v
                | (Some m, re') \<Rightarrow> f parse re' html (json_block parse m v)) = Some v'"
  show "\<forall>st a. a < length st \<and> st ! a = re \<longrightarrow>
          (\<exists>st'. json_scan_at parse a html v st = Some (v', st'))"
  proof (intro allI impI)
    fix st :: store and a
    assume a: "a < length st \<and> st ! a = re"
    let ?st' = "st[a := snd (regexp_exec re html)]"
    show "\<exists>st'. json_scan_at parse a html v st = Some (v', st')"
    proof (cases "fst (regexp_exec re html)")
      case None
      with step have "v' = v" by (auto split: prod.splits)
      then show ?thesis using None a
        by (subst json_scan_at.simps) (simp add: exec_at_eq)
    next
      case (Some m)
      with step have "f parse (snd (regexp_exec re html)) html (json_block parse m v) = Some v'"
        by (auto split: prod.splits)
      from IH[OF this] a
      obtain st'' where
        "json_scan_at parse a html (json_block parse m v) ?st' = Some (v', st'')"
        by (metis length_list_update nth_list_update_eq)
      then show ?thesis using Some a
        by (subst json_scan_at.simps) (simp add: exec_at_eq)
    qed
  qed
qed

lemma json_scan_at_fst:
  assumes "a < length st"
  shows "map_option fst (json_scan_at parse a html v st) = json_scan parse (st ! a) html v"
proof (cases "json_scan_at parse a html v st")
  case None
  have "json_scan parse (st ! a) html v = None"
  proof (cases "json_scan parse (st ! a) html v")
    case (Some v')
    from json_scan_at_complete[OF this, rule_format, of a st] assms None
    show ?thesis by simp
  qed simp
  with None show ?thesis by simp
next
  case (Some y)
  from json_scan_at_sound[OF this] assms show ?thesis using Some by simp
qed

lemma json_scan_at_store:
  "json_scan_at parse a html v st = Some (v', st') \<Longrightarrow> a < length st \<Longrightarrow>
   \<exists>re. st' = st[a := re]"
  using json_scan_at_sound[of parse a html v st "(v', st')"] by simp

lemma video_scan_at_sound:
  assumes "video_scan_at a html st = Some y"
  shows "a < length st \<longrightarrow>
         video_scan (st ! a) html = Some (fst y) \<and> (\<exists>re. snd y = st[a := re])"
proof (rule video_scan_at.raw_induct[OF _ assms])
  fix f a html st y
  assume IH: "\<And>a html st y. f a html st = Some y \<Longrightarrow>
                a < length st \<longrightarrow>
                video_scan (st ! a) html = Some (fst y) \<and> (\<exists>re. snd y = st[a := re])"
    and step: "(case exec_at a html st of
                  (None, st') \<Rightarrow> Some (None, st')
                | (Some m, st') \<Rightarrow>
                    if video_candidate_ok (m_group1 m) then Some (m_group1 m, st')
                    else f a html st') = Some y"
  show "a < length st \<longrightarrow>
        video_scan (st ! a) html = Some (fst y) \<and> (\<exists>re. snd y = st[a := re])"
  proof
    assume a: "a < length st"
    let ?st' = "st[a := snd (regexp_exec (st ! a) html)]"
    show "video_scan (st ! a) html = Some (fst y) \<and> (\<exists>re. snd y = st[a := re])"
    proof (cases "fst (regexp_exec (st ! a) html)")
      case None
      with step have "y = (None, ?st')" by (simp add: exec_at_eq)
      then show ?thesis using video_scan_null[OF None] by auto
    next
      case (Some m)
      show ?thesis
      proof (cases "video_candidate_ok (m_group1 m)")
        case True
        with step Some have "y = (m_group1 m, ?st')" by (simp add: exec_at_eq)
        then show ?thesis using video_scan_step[OF Some] True by auto
      next
        case False
        with step Some have "f a html ?st' = Some y" by (simp add: exec_at_eq)
        from IH[OF this] a
        have "video_scan (?st' ! a) html = Some (fst y) \<and> (\<exists>re. snd y = ?st'[a := re])"
          by simp
        then show ?thesis using a video_scan_step[OF Some] False by auto
      qed
    qed
  qed
qed

lemma video_scan_at_complete:
  assumes "video_scan re html = Some r"
  shows "\<forall>st a. a < length st \<and> st ! a = re \<longrightarrow>
           (\<exists>st'. video_scan_at a html st = Some (r, st'))"
proof (rule video_scan.raw_induct[OF _ assms])
  fix f re html r
  assume IH: "\<And>re html r. f re html = Some r \<Longrightarrow>
                \<forall>st a. a < length st \<and> st ! a = re \<longrightarrow>
                  (\<exists>st'. video_scan_at a html st = Some (r, st'))"
    and step: "(case regexp_exec re html of
                  (None, re') \<Rightarrow> Some None
                | (Some m, re') \<Rightarrow>
                    if video_candidate_ok (m_group1 m) then Some (m_group1 m)
                    else f re' html) = Some r"
  show "\<forall>st a. a < length st \<and> st ! a = re \<longrightarrow>
          (\<exists>st'. video_scan_at a html st = Some (r, st'))"
  proof (intro allI impI)
    fix st :: store and a
    assume a: "a < length st \<and> st ! a = re"
    let ?st' = "st[a := snd (regexp_exec re html)]"
    show "\<exists>st'. video_scan_at a html st = Some (r, st')"
    proof (cases "fst (regexp_exec re html)")
      case None
      with step have "r = None" by (auto split: prod.splits)
      then show ?thesis using None a
        by (subst video_scan_at.simps) (simp add: exec_at_eq)
    next
      case (Some m)
      show ?thesis
      proof (cases "video_candidate_ok (m_group1 m)")
        case True
        with step Some have "r = m_group1 m" by (auto split: prod.splits)
        then show ?thesis using Some True a
          by (subst video_scan_at.simps) (simp add: exec_at_eq)
      next
        case False
        with step Some have "f (snd (regexp_exec re html)) html = Some r"
          by (auto split: prod.splits)
        from IH[OF this] a
        obtain st'' where "video_scan_at a html ?st' = Some (r, st'')"
          by (metis length_list_update nth_list_update_eq)
        then show ?thesis using Some False a
          by (subst video_scan_at.simps) (simp add: exec_at_eq)
      qed
    qed
  qed
qed

lemma video_scan_at_fst:
  assumes "a < length st"
  shows "map_option fst (video_scan_at a html st) = video_scan (st ! a) html"
proof (cases "video_scan_at a html st")
  case None
  have "video_scan (st ! a) html = None"
  proof (cases "video_scan (st ! a) html")
    case (Some r)
    from video_scan_at_complete[OF this, rule_format, of a st] assms None
    show ?thesis by simp
  qed simp
  with None show ?thesis by simp
next
  case (Some y)
  from video_scan_at_sound[OF this] assms show ?thesis using Some by simp
qed

lemma video_scan_at_store:
  "video_scan_at a html st = Some (r, st') \<Longrightarrow> a < length st \<Longrightarrow> \<exists>re. st' = st[a := re]"
  using video_scan_at_sound[of a html st "(r, st')"] by simp

lemma map_nth_update_other: "a \<notin> set as \<Longrightarrow> map ((!) (st[a := re])) as = map ((!) st) as"
  by (induction as) auto

lemma scan_first_at_fst:
  "distinct as \<Longrightarrow> \<forall>a\<in>set as. a < length st \<Longrightarrow>
   fst (scan_first_at as html cur st) = scan_first (map ((!) st) as) html cur"
proof (induction as arbitrary: cur st)
  case Nil
  show ?case by simp
next
  case (Cons a as)
  let ?st' = "st[a := snd (regexp_exec (st ! a) html)]"
  let ?cur' = "case fst (regexp_exec (st ! a) html) of None \<Rightarrow> cur | Some m \<Rightarrow> group_value m"
  have "fst (scan_first_at as html ?cur' ?st') = scan_first (map ((!) ?st') as) html ?cur'"
    using Cons.prems by (intro Cons.IH) auto
  moreover have "map ((!) ?st') as = map ((!) st) as"
    using Cons.prems by (simp add: map_nth_update_other)
  ultimately show ?case by (simp add: exec_at_eq Let_def)
qed

lemma video_fallback_at_fst:
  "distinct as \<Longrightarrow> \<forall>a\<in>set as. a < length st \<Longrightarrow>
   map_option fst (video_fallback_at as html cur st) =
   video_fallback (map ((!) st) as) html cur"
proof (induction as arbitrary: cur st)
  case Nil
  show ?case by simp
next
  case (Cons a as)
  have a: "a < length st" using Cons.prems by simp
  show ?case
  proof (cases "video_scan_at a html st")
    case None
    then have "video_scan (st ! a) html = None" using video_scan_at_fst[OF a, of html] by simp
    with None show ?thesis by simp
  next
    case (Some y)
    obtain found st' where y: "y = (found, st')" by (cases y)
    from Some y video_scan_at_fst[OF a, of html]
    have p: "video_scan (st ! a) html = Some found" by simp
    from Some y video_scan_at_store a obtain re where st': "st' = st[a := re]" by blast
    let ?cur' = "case found of None \<Rightarrow> cur | Some u \<Rightarrow> JStr u"
    have "map_option fst (video_fallback_at as html ?cur' st') =
          video_fallback (map ((!) st') as) html ?cur'"
      using Cons.prems st' by (intro Cons.IH) auto
    moreover have "map ((!) st') as = map ((!) st) as"
      using Cons.prems st' by (simp add: map_nth_update_other)
    ultimately show ?thesis using Some y p by (simp add: Let_def)
  qed
qed

lemma new_objects_nth:
  "map ((!) (st @ res)) [length st..<length st + length res] = res"
  by (rule nth_equalityI) (simp_all add: nth_append)

lemma json_stage_fst:
  "map_option fst (json_stage parse html v st) = json_scan parse jsonScriptPattern html v"
  using json_scan_at_fst[of "length st" "st @ [jsonScriptPattern]" parse html v]
  by (simp add: json_stage_def new_object_def)

lemma audio_stage_fst:
  "fst (audio_stage html st) = scan_first audioUrlPatterns html (JStr [])"
  using scan_first_at_fst[of "[length st..<length st + length audioUrlPatterns]"
      "st @ audioUrlPatterns" html "JStr []"]
  by (simp add: audio_stage_def new_objects_def new_objects_nth)

lemma video_stage_fst:
  "map_option fst (video_stage html cur st) =
     (if \<not> truthy cur then video_fallback videoUrlPatterns html cur else Some cur)"
  using video_fallback_at_fst[of "[length st..<length st + length videoUrlPatterns]"
      "st @ videoUrlPatterns" html cur]
  by (simp add: video_stage_def new_objects_def new_objects_nth)

lemma m3u8_stage_fst:
  "fst (m3u8_stage html cur st) =
     (if \<not> truthy cur then scan_first m3u8Patterns html cur else cur)"
  using scan_first_at_fst[of "[length st..<length st + length m3u8Patterns]"
      "st @ m3u8Patterns" html cur]
  by (simp add: m3u8_stage_def new_objects_def new_objects_nth)

lemma img_stage_fst:
  "fst (img_stage html cur st) =
     (if \<not> truthy cur then scan_first imgPatterns html cur else cur)"
  using scan_first_at_fst[of "[length st..<length st + length imgPatterns]"
      "st @ imgPatterns" html cur]
  by (simp add: img_stage_def new_objects_def new_objects_nth)

lemma cascade_at_fst: "map_option fst (cascade_at parse html st) = cascade parse html"
proof (cases "head_fields html")
  case (Inl e)
  then show ?thesis by (simp add: cascade_at_def cascade_def)
next
  case (Inr v1)
  show ?thesis
  proof (cases "json_stage parse html v1 st")
    case None
    then have "json_scan parse jsonScriptPattern html v1 = None"
      using json_stage_fst[of parse html v1 st] by simp
    with None Inr show ?thesis by (simp add: cascade_at_def cascade_def)
  next
    case (Some y)
    obtain v2 st2 where y: "y = (v2, st2)" by (cases y)
    have j: "json_scan parse jsonScriptPattern html v1 = Some v2"
      using json_stage_fst[of parse html v1 st] Some y by simp
    obtain audio st3 where au: "audio_stage html st2 = (audio, st3)"
      by (cases "audio_stage html st2")
    have au': "scan_first audioUrlPatterns html (JStr []) = audio"
      using audio_stage_fst[of html st2] au by simp
    show ?thesis
    proof (cases "video_stage html (var_videoUrl v2) st3")
      case None
      then have "(if \<not> truthy (var_videoUrl v2)
                  then video_fallback videoUrlPatterns html (var_videoUrl v2)
                  else Some (var_videoUrl v2)) = None"
        using video_stage_fst[of html "var_videoUrl v2" st3] by simp
      with None Inr Some y j au show ?thesis
        by (auto simp: cascade_at_def cascade_def Let_def split: if_splits)
    next
      case (Some z)
      obtain vid st4 where z: "z = (vid, st4)" by (cases z)
      have vd: "(if \<not> truthy (var_videoUrl v2)
                  then video_fallback videoUrlPatterns html (var_videoUrl v2)
                  else Some (var_videoUrl v2)) = Some vid"
        using video_stage_fst[of html "var_videoUrl v2" st3] Some z by simp
      obtain vid' st5 where m: "m3u8_stage html vid st4 = (vid', st5)"
        by (cases "m3u8_stage html vid st4")
      have m': "vid' = (if \<not> truthy vid then scan_first m3u8Patterns html vid else vid)"
        using m3u8_stage_fst[of html vid st4] m by simp
      obtain thumb st6 where i: "img_stage html (var_thumbnail v2) st5 = (thumb, st6)"
        by (cases "img_stage html (var_thumbnail v2) st5")
      have i': "thumb = (if \<not> truthy (var_thumbnail v2)
                         then scan_first imgPatterns html (var_thumbnail v2)
                         else var_thumbnail v2)"
        using img_stage_fst[of html "var_thumbnail v2" st5] i by simp
      have "cascade_at parse html st =
              Some (Inr (v2\<lparr>var_thumbnail := thumb, var_videoUrl := vid',
                            var_audioUrl := audio\<rparr>), st6)"
        using Inr \<open>json_stage parse html v1 st = Some y\<close> y au Some z m i
        by (simp add: cascade_at_def)
      moreover have "cascade parse html =
              Some (Inr (v2\<lparr>var_thumbnail := thumb, var_videoUrl := vid',
                            var_audioUrl := audio\<rparr>))"
        using Inr j au' vd m' i' by (auto simp: cascade_def Let_def split: if_splits)
      ultimately show ?thesis by simp
    qed
  qed
qed

lemma extract_at_fst:
  "map_option fst (extractVideoInfoFromHtml_at parse html url st) =
     extractVideoInfoFromHtml parse html url"
proof (cases "cascade_at parse html st")
  case None
  then have "cascade parse html = None" using cascade_at_fst[of parse html st] by simp
  with None show ?thesis
    by (simp add: extractVideoInfoFromHtml_at_def extract_try_at_def
        extractVideoInfoFromHtml_def extract_try_def)
next
  case (Some y)
  obtain r st' where y: "y = (r, st')" by (cases y)
  then have "cascade parse html = Some r" using cascade_at_fst[of parse html st] Some by simp
  with Some y show ?thesis
    by (cases r; cases "finish (projr r)")
       (simp_all add: extractVideoInfoFromHtml_at_def extract_try_at_def
        extractVideoInfoFromHtml_def extract_try_def)
qed

text \<open>
  The store a loop leaves, for the evaluation of an example: a pattern without a
  match leaves its object as it was made; the loops stop at the first candidate.
\<close>

lemma exec_at_append:
  "k < length objs \<Longrightarrow>
   exec_at (length st + k) s (st @ objs) =
     (fst (regexp_exec (objs ! k) s), st @ objs[k := snd (regexp_exec (objs ! k) s)])"
  by (simp add: exec_at_eq list_update_append)

lemma scan_first_at_quiet:
  "list_all (\<lambda>p. regexp_exec p html = (None, p)) ps \<Longrightarrow> \<not> truthy cur \<Longrightarrow>
   scan_first_at [length st..<length st + length ps] html cur (st @ ps @ rest) =
     (cur, st @ ps @ rest)"
proof (induction ps arbitrary: st)
  case Nil
  show ?case by simp
next
  case (Cons p ps)
  have "scan_first_at [length (st @ [p])..<length (st @ [p]) + length ps] html cur
          ((st @ [p]) @ ps @ rest) = (cur, (st @ [p]) @ ps @ rest)"
    using Cons.prems by (intro Cons.IH) auto
  moreover have "exec_at (length st) html (st @ p # ps @ rest) = (None, st @ p # ps @ rest)"
    using Cons.prems exec_at_append[of 0 "p # ps @ rest" st html] by simp
  moreover have "[length st..<length st + length (p # ps)] =
                 length st # [length (st @ [p])..<length (st @ [p]) + length ps]"
    by (subst upt_conv_Cons) simp_all
  ultimately show ?case using Cons.prems(2) by (simp del: upt_Suc)
qed

lemma json_scan_at_null:
  "exec_at a html st = (None, st') \<Longrightarrow> json_scan_at parse a html v st = Some (v, st')"
  by (subst json_scan_at.simps) simp

lemma video_scan_at_found:
  "exec_at a html st = (Some m, st') \<Longrightarrow> video_candidate_ok (m_group1 m) \<Longrightarrow>
   video_scan_at a html st = Some (m_group1 m, st')"
  by (subst video_scan_at.simps) simp

section \<open>The examples, evaluated\<close>

lemmas ev = str_def starts_with_def is_space_def is_line_terminator_def trim_def u002F_def
  spec_strip_backslashes_def unescape_spec spec_unescape_def canonicalize_def cls_has_def one_char_def match_at_def
  new_regexp_def regexp_exec_def string_match_def string_replace_def seqs_def lit_def
  quote_def not_quote_def url_char_def not_gt_def space_def title_pattern_def
  title_suffix_pattern_def og_property_content_def og_content_property_def og_title_name_def
  og_image_name_def og_video_name_def author_by_pattern_def json_key_pattern_def
  jsonScriptPattern_def quoted_url_pattern_def key_pattern_def quoted_video_url_pattern_def
  quoted_image_url_pattern_def audioUrlPatterns_def videoUrlPatterns_def m3u8Patterns_def
  imgPatterns_def js_or_def get_prop_def get_author_name_def string_method_def group_value_def
  initial_vars_def match_or_def titleMatch_def step_title_def ogTitleMatch_def step_og_title_def
  ogImageMatch_def ogVideoMatch_def step_og_image_def step_og_video_def authorMatch_def
  step_author_def head_fields_def json_assign_def json_block_def video_candidate_ok_def
  unescape_if_set_def finish_def parse_argument_def rejects_forever_def Let_def

lemmas examples = html_hls_def json_text_def html_json_def parse_example_def html_titles_def
  cover_url_def html_og_cover_def plain_url_def html_two_urls_def escaped_url_def
  html_escaped_def first_block_match_def og_title_match_def info_with_def
  u_video_url_def u_cover_url_def u_audio_url_def html_u002F_def info_u002F_def
  html_quoted_def

subsection \<open>The page with \<^verbatim>\<open>hlsPlayUrl\<close>\<close>

lemma hls_head: "head_fields html_hls = Inr initial_vars"
  by (simp add: examples ev)

lemma hls_json: "fst (regexp_exec jsonScriptPattern html_hls) = None"
  by (simp add: examples ev)

lemma hls_video1: "fst (regexp_exec (quoted_url_pattern ''.mp4'') html_hls) = None"
  by (simp add: examples ev)

lemma hls_video2: "fst (regexp_exec quoted_video_url_pattern html_hls) = None"
  by (simp add: examples ev)

lemma hls_video3: "fst (regexp_exec (key_pattern ''videoUrl'') html_hls) = None"
  by (simp add: examples ev)

lemma hls_video4: "rejects_forever (key_pattern ''playUrl'') html_hls"
  by (simp add: examples ev)

lemma hls_fallback: "video_fallback videoUrlPatterns html_hls (JStr []) = None"
  by (simp add: videoUrlPatterns_def video_scan_null[OF hls_video1]
      video_scan_null[OF hls_video2] video_scan_null[OF hls_video3]
      video_scan_stuck[OF hls_video4])

lemma hls_cascade: "cascade parse html_hls = None"
  by (simp add: cascade_def hls_head json_scan_null[OF hls_json] initial_vars_def
      hls_fallback Let_def)

subsection \<open>The page with two script blocks\<close>

lemma json_head: "head_fields html_json = Inr initial_vars"
  by (simp add: examples ev)

lemma json_exec1:
  "regexp_exec jsonScriptPattern html_json =
     (Some first_block_match, jsonScriptPattern\<lparr>re_lastIndex := 42\<rparr>)"
  by (simp add: examples ev)

lemma json_exec2:
  "map_option m_group1 (fst (regexp_exec (jsonScriptPattern\<lparr>re_lastIndex := 42\<rparr>) html_json))
     = Some (Some json_text) \<and>
   snd (regexp_exec (jsonScriptPattern\<lparr>re_lastIndex := 42\<rparr>) html_json)
     = jsonScriptPattern\<lparr>re_lastIndex := 99\<rparr>"
  by (simp add: examples ev)

lemma json_exec3:
  "fst (regexp_exec (jsonScriptPattern\<lparr>re_lastIndex := 99\<rparr>) html_json) = None"
  by (simp add: examples ev)

lemma json_first_block_fails: "parse_example (parse_argument first_block_match) = None"
  by (simp add: examples ev)

lemma json_second_block:
  "m_group1 m = Some json_text \<Longrightarrow>
   json_block parse_example m initial_vars = initial_vars\<lparr>var_videoUrl := JNum 5\<rparr>"
  by (simp add: json_block_def parse_argument_def parse_example_def json_assign_def
      get_prop_def get_author_name_def js_or_def initial_vars_def str_def Let_def)

lemma json_loop:
  "json_scan parse_example jsonScriptPattern html_json initial_vars =
     Some (initial_vars\<lparr>var_videoUrl := JNum 5\<rparr>)"
proof -
  from json_exec2 obtain m2 where
    m2: "fst (regexp_exec (jsonScriptPattern\<lparr>re_lastIndex := 42\<rparr>) html_json) = Some m2"
      "m_group1 m2 = Some json_text"
    by auto
  have "json_scan parse_example jsonScriptPattern html_json initial_vars =
        json_scan parse_example (jsonScriptPattern\<lparr>re_lastIndex := 42\<rparr>) html_json
          initial_vars"
    using json_scan_step[of jsonScriptPattern html_json first_block_match parse_example
        initial_vars] json_first_block_fails
    by (simp add: json_exec1 json_block_def)
  also have "\<dots> = json_scan parse_example (jsonScriptPattern\<lparr>re_lastIndex := 99\<rparr>) html_json
          (initial_vars\<lparr>var_videoUrl := JNum 5\<rparr>)"
    using json_scan_step[OF m2(1), of parse_example initial_vars] json_exec2
    by (simp add: json_second_block[OF m2(2)])
  also have "\<dots> = Some (initial_vars\<lparr>var_videoUrl := JNum 5\<rparr>)"
    by (rule json_scan_null[OF json_exec3])
  finally show ?thesis .
qed

lemma json_audio: "scan_first audioUrlPatterns html_json (JStr []) = JStr []"
  by (simp add: examples ev)

lemma json_img: "scan_first imgPatterns html_json (JStr []) = JStr []"
  by (simp add: examples ev)

lemma json_cascade:
  "cascade parse_example html_json = Some (Inr (initial_vars\<lparr>var_videoUrl := JNum 5\<rparr>))"
  by (simp add: cascade_def json_head json_loop[unfolded initial_vars_def] json_audio json_img
      initial_vars_def Let_def)

lemma json_try: "extract_try parse_example html_json [] = Some (Inl TypeError)"
  by (simp add: extract_try_def json_cascade finish_def unescape_if_set_def string_method_def
      initial_vars_def)

subsection \<open>The page with a title tag and \<^verbatim>\<open>og:title\<close>\<close>









subsection \<open>The page whose \<^verbatim>\<open>og:video\<close> is a cover URL\<close>

lemma cover_head:
  "head_fields html_og_cover = Inr (initial_vars\<lparr>var_videoUrl := JStr cover_url\<rparr>)"
  by (simp add: examples ev)

lemma cover_json: "fst (regexp_exec jsonScriptPattern html_og_cover) = None"
  by (simp add: examples ev)

lemma cover_audio: "scan_first audioUrlPatterns html_og_cover (JStr []) = JStr []"
  by (simp add: examples ev)

lemma cover_img: "scan_first imgPatterns html_og_cover (JStr []) = JStr []"
  by (simp add: examples ev)

lemma cover_cascade:
  "cascade parse html_og_cover = Some (Inr (initial_vars\<lparr>var_videoUrl := JStr cover_url\<rparr>))"
  by (simp add: cascade_def cover_head json_scan_null[OF cover_json] cover_audio cover_img
      initial_vars_def cover_url_def str_def Let_def)

lemma cover_result:
  "extractVideoInfoFromHtml parse html_og_cover url =
     Some (Inr (Some (info_with (str ''Kuaishou Video'') cover_url)))"
  by (simp add: extractVideoInfoFromHtml_def extract_try_def cover_cascade finish_def
      unescape_if_set_def string_method_def js_or_def initial_vars_def info_with_def
      unescape_spec spec_unescape_def spec_strip_backslashes_def starts_with_def u002F_def cover_url_def str_def)

subsection \<open>The page with two quoted URLs\<close>

lemma two_exec1:
  "map_option m_group1 (fst (regexp_exec (quoted_url_pattern ''.mp4'') html_two_urls))
     = Some (Some cover_url) \<and>
   snd (regexp_exec (quoted_url_pattern ''.mp4'') html_two_urls)
     = (quoted_url_pattern ''.mp4'')\<lparr>re_lastIndex := 39\<rparr>"
  by (simp add: examples ev)

lemma two_exec2:
  "map_option m_group1
     (fst (regexp_exec ((quoted_url_pattern ''.mp4'')\<lparr>re_lastIndex := 39\<rparr>) html_two_urls))
     = Some (Some plain_url)"
  by (simp add: examples ev)

lemma cover_rejected: "\<not> video_candidate_ok (Some cover_url)"
  by (simp add: video_candidate_ok_def cover_url_def str_def starts_with_def)

lemma plain_accepted: "video_candidate_ok (Some plain_url)"
  by (simp add: video_candidate_ok_def plain_url_def str_def starts_with_def)

lemma two_scan: "video_scan (quoted_url_pattern ''.mp4'') html_two_urls = Some (Some plain_url)"
proof -
  from two_exec1 obtain m1 where
    m1: "fst (regexp_exec (quoted_url_pattern ''.mp4'') html_two_urls) = Some m1"
      "m_group1 m1 = Some cover_url"
    by auto
  from two_exec2 obtain m2 where
    m2: "fst (regexp_exec ((quoted_url_pattern ''.mp4'')\<lparr>re_lastIndex := 39\<rparr>) html_two_urls)
           = Some m2"
      "m_group1 m2 = Some plain_url"
    by auto
  have "video_scan (quoted_url_pattern ''.mp4'') html_two_urls =
        video_scan ((quoted_url_pattern ''.mp4'')\<lparr>re_lastIndex := 39\<rparr>) html_two_urls"
    using video_scan_step[OF m1(1)] m1(2) cover_rejected two_exec1 by simp
  also have "\<dots> = Some (Some plain_url)"
    using video_scan_step[OF m2(1)] m2(2) plain_accepted by simp
  finally show ?thesis .
qed

lemma two_fallback:
  "video_fallback videoUrlPatterns html_two_urls (JStr []) = Some (JStr plain_url)"
  by (simp add: videoUrlPatterns_def two_scan plain_url_def str_def)

subsection \<open>The page with an escaped URL\<close>

lemma escaped_head: "head_fields html_escaped = Inr initial_vars"
  by (simp add: examples ev)

lemma escaped_json: "fst (regexp_exec jsonScriptPattern html_escaped) = None"
  by (simp add: examples ev)

lemma escaped_audio: "scan_first audioUrlPatterns html_escaped (JStr []) = JStr []"
  by (simp add: examples ev)

lemma escaped_video1: "fst (regexp_exec (quoted_url_pattern ''.mp4'') html_escaped) = None"
  by (simp add: examples ev)

lemma escaped_video2: "fst (regexp_exec quoted_video_url_pattern html_escaped) = None"
  by (simp add: examples ev)

lemma escaped_video3:
  "map_option m_group1 (fst (regexp_exec (key_pattern ''videoUrl'') html_escaped))
     = Some (Some escaped_url)"
  by (simp add: examples ev)

lemma escaped_accepted: "video_candidate_ok (Some escaped_url)"
  by (simp add: video_candidate_ok_def escaped_url_def str_def starts_with_def)

lemma escaped_fallback:
  "video_fallback videoUrlPatterns html_escaped (JStr []) = Some (JStr escaped_url)"
proof -
  from escaped_video3 obtain m where
    m: "fst (regexp_exec (key_pattern ''videoUrl'') html_escaped) = Some m"
      "m_group1 m = Some escaped_url"
    by auto
  have "video_scan (key_pattern ''videoUrl'') html_escaped = Some (Some escaped_url)"
    using video_scan_step[OF m(1)] m(2) escaped_accepted by simp
  then show ?thesis
    by (simp add: videoUrlPatterns_def video_scan_null[OF escaped_video1]
        video_scan_null[OF escaped_video2] escaped_url_def str_def)
qed

lemma escaped_img: "scan_first imgPatterns html_escaped (JStr []) = JStr []"
  by (simp add: examples ev)

lemma escaped_cascade:
  "cascade parse html_escaped = Some (Inr (initial_vars\<lparr>var_videoUrl := JStr escaped_url\<rparr>))"
  by (simp add: cascade_def escaped_head json_scan_null[OF escaped_json] escaped_audio
      escaped_fallback escaped_img initial_vars_def escaped_url_def str_def Let_def)

lemma escaped_unescape: "unescape escaped_url = plain_url"
  by (simp add: unescape_spec spec_unescape_def spec_strip_backslashes_def starts_with_def u002F_def escaped_url_def
      plain_url_def str_def)

lemma escaped_result:
  "extractVideoInfoFromHtml parse html_escaped url =
     Some (Inr (Some (info_with (str ''Kuaishou Video'') plain_url)))"
  by (simp add: extractVideoInfoFromHtml_def extract_try_def escaped_cascade finish_def
      unescape_if_set_def string_method_def js_or_def initial_vars_def info_with_def
      escaped_unescape)
     (simp add: escaped_url_def plain_url_def str_def)

subsection \<open>The page with \<^verbatim>\<open>\u002F\<close> in three URLs\<close>

lemma u002F_head: "head_fields html_u002F = Inr initial_vars"
  by (simp add: examples ev)

lemma u002F_json: "fst (regexp_exec jsonScriptPattern html_u002F) = None"
  by (simp add: examples ev)

lemma u002F_audio: "scan_first audioUrlPatterns html_u002F (JStr []) = JStr u_audio_url"
  by (simp add: examples ev)

lemma u002F_video1: "fst (regexp_exec (quoted_url_pattern ''.mp4'') html_u002F) = None"
  by (simp add: examples ev)

lemma u002F_video2: "fst (regexp_exec quoted_video_url_pattern html_u002F) = None"
  by (simp add: examples ev)

lemma u002F_video3:
  "map_option m_group1 (fst (regexp_exec (key_pattern ''videoUrl'') html_u002F))
     = Some (Some u_video_url)"
  by (simp add: examples ev)

lemma u002F_accepted: "video_candidate_ok (Some u_video_url)"
  by (simp add: video_candidate_ok_def u_video_url_def u002F_def str_def starts_with_def)

lemma u002F_fallback:
  "video_fallback videoUrlPatterns html_u002F (JStr []) = Some (JStr u_video_url)"
proof -
  from u002F_video3 obtain m where
    m: "fst (regexp_exec (key_pattern ''videoUrl'') html_u002F) = Some m"
      "m_group1 m = Some u_video_url"
    by auto
  have "video_scan (key_pattern ''videoUrl'') html_u002F = Some (Some u_video_url)"
    using video_scan_step[OF m(1)] m(2) u002F_accepted by simp
  then show ?thesis
    by (simp add: videoUrlPatterns_def video_scan_null[OF u002F_video1]
        video_scan_null[OF u002F_video2] u_video_url_def u002F_def str_def)
qed

lemma u002F_img: "scan_first imgPatterns html_u002F (JStr []) = JStr u_cover_url"
  by (simp add: examples ev)

lemma u002F_cascade:
  "cascade parse html_u002F =
     Some (Inr (initial_vars\<lparr>var_thumbnail := JStr u_cover_url,
                              var_videoUrl := JStr u_video_url,
                              var_audioUrl := JStr u_audio_url\<rparr>))"
  by (simp add: cascade_def u002F_head json_scan_null[OF u002F_json] u002F_audio
      u002F_fallback u002F_img initial_vars_def u_video_url_def u_cover_url_def
      u_audio_url_def u002F_def str_def Let_def)

lemma u002F_unescape:
  "unescape u_video_url = str ''https://h.cn/v.mp4''"
  "unescape u_cover_url = str ''https://h.cn/c.jpg''"
  "unescape u_audio_url = str ''https://h.cn/a.m4a''"
  by (simp_all add: unescape_spec spec_unescape_def spec_strip_backslashes_def starts_with_def
      u002F_def u_video_url_def u_cover_url_def u_audio_url_def str_def)

lemma u002F_result: "extractVideoInfoFromHtml parse html_u002F url = Some (Inr (Some info_u002F))"
  by (simp add: extractVideoInfoFromHtml_def extract_try_def u002F_cascade finish_def
      unescape_if_set_def string_method_def js_or_def initial_vars_def info_u002F_def
      u002F_unescape)
     (simp add: u_video_url_def u_cover_url_def u_audio_url_def u002F_def str_def)

subsection \<open>The page with one quoted URL, and the store it leaves\<close>

lemma quoted_head: "head_fields html_quoted = Inr initial_vars"
  by (simp add: examples ev)

lemma quoted_json: "regexp_exec jsonScriptPattern html_quoted = (None, jsonScriptPattern)"
  by (simp add: examples ev)

lemma quoted_audio:
  "list_all (\<lambda>p. regexp_exec p html_quoted = (None, p)) audioUrlPatterns"
  by (simp add: examples ev)

lemma quoted_video:
  "regexp_exec (quoted_url_pattern ''.mp4'') html_quoted =
     (Some \<lparr>m_index = 0, m_all = html_quoted, m_group1 = Some plain_url\<rparr>,
      (quoted_url_pattern ''.mp4'')\<lparr>re_lastIndex := 31\<rparr>)"
  by (simp add: examples ev)

lemma quoted_video_again:
  "regexp_exec ((quoted_url_pattern ''.mp4'')\<lparr>re_lastIndex := 31\<rparr>) html_quoted =
     (None, quoted_url_pattern ''.mp4'')"
  by (simp add: examples ev)

lemma quoted_img:
  "list_all (\<lambda>p. regexp_exec p html_quoted = (None, p)) imgPatterns"
  by (simp add: examples ev)

lemma quoted_accepted: "video_candidate_ok (Some plain_url)"
  by (simp add: video_candidate_ok_def plain_url_def str_def starts_with_def)

lemma quoted_json_stage:
  "json_stage parse html_quoted v st = Some (v, st @ [jsonScriptPattern])"
  using exec_at_append[of 0 "[jsonScriptPattern]" st html_quoted]
  by (simp add: json_stage_def new_object_def json_scan_at_null quoted_json)

lemma quoted_audio_stage:
  "audio_stage html_quoted st = (JStr [], st @ audioUrlPatterns)"
  using scan_first_at_quiet[OF quoted_audio, of "JStr []" st "[]"]
  by (simp add: audio_stage_def new_objects_def)

lemma quoted_video_stage:
  "video_stage html_quoted (JStr []) st =
     Some (JStr plain_url,
           st @ videoUrlPatterns[0 := (quoted_url_pattern ''.mp4'')\<lparr>re_lastIndex := 31\<rparr>])"
proof -
  have v: "videoUrlPatterns ! 0 = quoted_url_pattern ''.mp4''" "0 < length videoUrlPatterns"
    by (simp_all add: videoUrlPatterns_def)
  have "exec_at (length st) html_quoted (st @ videoUrlPatterns) =
          (Some \<lparr>m_index = 0, m_all = html_quoted, m_group1 = Some plain_url\<rparr>,
           st @ videoUrlPatterns[0 := (quoted_url_pattern ''.mp4'')\<lparr>re_lastIndex := 31\<rparr>])"
    using exec_at_append[of 0 videoUrlPatterns st html_quoted] v by (simp add: quoted_video)
  from video_scan_at_found[OF this] quoted_accepted
  have "video_scan_at (length st) html_quoted (st @ videoUrlPatterns) =
          Some (Some plain_url,
                st @ videoUrlPatterns[0 := (quoted_url_pattern ''.mp4'')\<lparr>re_lastIndex := 31\<rparr>])"
    by simp
  moreover have "[length st..<length st + length videoUrlPatterns] =
                 length st # [Suc (length st)..<length st + length videoUrlPatterns]"
    using v(2) by (simp add: upt_conv_Cons)
  moreover have "plain_url \<noteq> []" by (simp add: plain_url_def str_def)
  ultimately show ?thesis by (simp add: video_stage_def new_objects_def)
qed

lemma quoted_m3u8_stage:
  "m3u8_stage html_quoted (JStr plain_url) st = (JStr plain_url, st @ m3u8Patterns)"
  by (simp add: m3u8_stage_def new_objects_def plain_url_def str_def)

lemma quoted_img_stage:
  "img_stage html_quoted (JStr []) st = (JStr [], st @ imgPatterns)"
  using scan_first_at_quiet[OF quoted_img, of "JStr []" st "[]"]
  by (simp add: img_stage_def new_objects_def)

lemma quoted_cascade_at:
  "cascade_at parse html_quoted st =
     Some (Inr (initial_vars\<lparr>var_videoUrl := JStr plain_url\<rparr>), st @ objects_left)"
  by (simp add: cascade_at_def quoted_head quoted_json_stage quoted_audio_stage
      quoted_video_stage quoted_m3u8_stage quoted_img_stage initial_vars_def objects_left_def)

lemma plain_unescape: "unescape plain_url = plain_url"
  by (simp add: unescape_spec spec_unescape_keeps plain_url_def str_def)

lemma quoted_run:
  "extractVideoInfoFromHtml_at parse html_quoted url st =
     Some (Inr (Some (info_with (str ''Kuaishou Video'') plain_url)), st @ objects_left)"
  by (simp add: extractVideoInfoFromHtml_at_def extract_try_at_def quoted_cascade_at finish_def
      unescape_if_set_def string_method_def js_or_def initial_vars_def info_with_def
      plain_unescape)
     (simp add: plain_url_def str_def)

lemma objects_left_video:
  "objects_left ! 6 = (quoted_url_pattern ''.mp4'')\<lparr>re_lastIndex := 31\<rparr>"
  by (simp add: objects_left_def audioUrlPatterns_def videoUrlPatterns_def)

lemma quoted_scan_fresh: "video_scan (quoted_url_pattern ''.mp4'') html_quoted = Some (Some plain_url)"
  using video_scan_step[of "quoted_url_pattern ''.mp4''" html_quoted] quoted_accepted
  by (simp add: quoted_video)

lemma quoted_scan_left: "video_scan (objects_left ! 6) html_quoted = Some None"
  by (simp add: objects_left_video video_scan_null quoted_video_again)

section \<open>The redirect loop\<close>

lemma redirect_loop_has_response:
  "redirect_loop net resolve maxRedirects i currentUrl (Some r0) \<noteq> Inl NoResponseError"
proof (induction net resolve maxRedirects i currentUrl "Some r0" arbitrary: r0
       rule: redirect_loop.induct)
  case (1 net resolve maxRedirects i currentUrl)
  show ?case
    apply (subst redirect_loop.simps)
    using 1 by (auto simp: after_loop_def split: option.splits)
qed

lemma fetch_unfold:
  "fetchWithRedirects net resolve url maxRedirects =
     (if 0 < maxRedirects then
        (case net 0 url of
           None \<Rightarrow> Inl NetworkError
         | Some r \<Rightarrow>
             if is_redirect r then
               (case next_url resolve url (the (resp_location r)) of
                  None \<Rightarrow> Inl InvalidUrlError
                | Some u \<Rightarrow> redirect_loop net resolve maxRedirects 1 u (Some r))
             else Inr r)
      else Inl NoResponseError)"
  unfolding fetchWithRedirects_def
  by (subst redirect_loop.simps)
     (auto simp: after_loop_def is_redirect_def split: option.splits)



section \<open>The video fallback and the title\<close>

lemma video_fallback_found_ok:
  "video_fallback ps html cur = Some v' \<Longrightarrow> \<not> truthy cur \<Longrightarrow> truthy v' \<Longrightarrow>
   \<exists>u. v' = JStr u \<and> video_candidate_ok (Some u)"
proof (induction ps arbitrary: cur)
  case Nil
  then show ?case by simp
next
  case (Cons p ps)
  from Cons.prems(1) obtain found where f: "video_scan p html = Some found"
    by (auto split: option.splits)
  show ?case
  proof (cases found)
    case None
    with f Cons.prems have "video_fallback ps html cur = Some v'"
      by (simp add: Let_def split: if_splits)
    from Cons.IH[OF this Cons.prems(2,3)] show ?thesis .
  next
    case (Some u)
    with video_scan_found_ok[OF f] have ok: "video_candidate_ok (Some u)" by simp
    then have "u \<noteq> []" by (simp add: video_candidate_ok_def)
    with f Some Cons.prems(1) have "v' = JStr u" by (simp add: Let_def)
    with ok show ?thesis by simp
  qed
qed



lemma no_backslash_unescape: "92 \<notin> set (unescape s)"
  by (simp add: unescape_spec spec_unescape_def spec_strip_backslashes_def)

section \<open>The claims\<close>

text \<open>
  C1. Claimed: for every HTML input and original URL the extraction returns null or
  a complete object (non-empty \<open>videoUrl\<close>, title and author, quality "720p"). The
  code does not return on every input. On the page \<open>html_hls\<close>, which carries its
  manifest under the key \<^verbatim>\<open>hlsPlayUrl\<close>, the pattern for \<^verbatim>\<open>playUrl\<close> (i flag, no g
  flag) matches inside \<^verbatim>\<open>hlsPlayUrl\<close>; the candidate has no \<^verbatim>\<open>.mp4\<close> and is rejected,
  and the inner \<^verbatim>\<open>while\<close> loop of the video fallback calls \<^verbatim>\<open>exec\<close> on the same regex
  object again, which starts at 0 and returns the same match: the call never
  returns. \<open>extract_None_iff\<close> lists the inputs on which this happens; whenever a
  call returns, the result is null or an object with a non-empty string as
  \<open>videoUrl\<close>, a truthy title and author, quality "720p" and an empty \<open>fileSize\<close>
  (\<open>extract_returns_complete\<close>).
\<close>

theorem extract_does_not_return_on_hlsPlayUrl:
  "extractVideoInfoFromHtml parse html_hls url = None"
  by (simp add: extractVideoInfoFromHtml_def extract_try_def hls_cascade)

text \<open>
  C2. The extraction never raises: the outer \<^verbatim>\<open>catch\<close> turns an exception of the body
  into null. A script block that \<^verbatim>\<open>JSON.parse\<close> rejects, or whose value is null (reading
  a property of it is a TypeError), leaves the variables as they are, and the loop
  goes on with the next match.
\<close>

theorem extract_never_raises:
  "extractVideoInfoFromHtml parse html url \<noteq> Some (Inl e) \<and>
   (extract_try parse html url = Some (Inl e) \<longrightarrow>
      extractVideoInfoFromHtml parse html url = Some (Inr None)) \<and>
   (parse (parse_argument m) = None \<or> parse (parse_argument m) = Some JNull \<longrightarrow>
      json_block parse m v = v) \<and>
   (fst (regexp_exec re html) = Some m \<and>
    (parse (parse_argument m) = None \<or> parse (parse_argument m) = Some JNull) \<longrightarrow>
      json_scan parse re html v = json_scan parse (snd (regexp_exec re html)) html v)"
proof -
  have a: "extractVideoInfoFromHtml parse html url \<noteq> Some (Inl e)"
    by (simp add: extractVideoInfoFromHtml_def split: option.splits sum.splits)
  have b: "extract_try parse html url = Some (Inl e) \<longrightarrow>
      extractVideoInfoFromHtml parse html url = Some (Inr None)"
    by (simp add: extractVideoInfoFromHtml_def)
  have c: "parse (parse_argument m) = None \<or> parse (parse_argument m) = Some JNull \<longrightarrow>
      json_block parse m v = v"
    by (auto simp: json_block_def json_assign_def get_prop_def)
  have d: "fst (regexp_exec re html) = Some m \<and>
    (parse (parse_argument m) = None \<or> parse (parse_argument m) = Some JNull) \<longrightarrow>
      json_scan parse re html v = json_scan parse (snd (regexp_exec re html)) html v"
    using json_scan_step[of re html m parse v] c by auto
  from a b c d show ?thesis by blast
qed

theorem extract_never_raises_witness:
  "extractVideoInfoFromHtml parse_example html_json [] \<noteq> Some (Inl TypeError) \<and>
   extract_try parse_example html_json [] = Some (Inl TypeError) \<and>
   extractVideoInfoFromHtml parse_example html_json [] = Some (Inr None) \<and>
   fst (regexp_exec jsonScriptPattern html_json) = Some first_block_match \<and>
   parse_example (parse_argument first_block_match) = None \<and>
   json_block parse_example first_block_match initial_vars = initial_vars \<and>
   json_scan parse_example jsonScriptPattern html_json initial_vars =
     json_scan parse_example (snd (regexp_exec jsonScriptPattern html_json)) html_json
       initial_vars \<and>
   json_scan parse_example jsonScriptPattern html_json initial_vars =
     Some (initial_vars\<lparr>var_videoUrl := JNum 5\<rparr>)"
  using extract_never_raises[where parse = parse_example and html = html_json and url = "[]"
      and e = TypeError and m = first_block_match and v = initial_vars
      and re = jsonScriptPattern]
    json_try json_exec1 json_first_block_fails json_loop
  by simp






text \<open>
  C5 (as amended). Claimed: a quoted URL with "cover" or "poster" in it is never the
  \<open>videoUrl\<close> of the result. The filter stands only in the video fallback: a URL
  that \<^verbatim>\<open>og:video\<close> supplies is taken as it is (shown after the theorem, for the
  URL of the claim). What holds: a URL that the video fallback scan selects contains
  \<^verbatim>\<open>.mp4\<close> and neither "poster" nor "cover".
\<close>

theorem video_fallback_rejects_cover_and_poster:
  assumes "video_fallback ps html cur = Some v" and "\<not> truthy cur" and "truthy v"
  shows "\<exists>u. v = JStr u \<and> str_includes u (str ''.mp4'') \<and>
           \<not> str_includes u (str ''poster'') \<and> \<not> str_includes u (str ''cover'')"
  using video_fallback_found_ok[OF assms] by (auto simp: video_candidate_ok_def)

theorem video_fallback_rejects_cover_and_poster_witness:
  "video_fallback videoUrlPatterns html_two_urls (JStr []) = Some (JStr plain_url) \<and>
   \<not> truthy (JStr []) \<and> truthy (JStr plain_url) \<and>
   str_includes cover_url (str ''cover'') \<and>
   str_includes plain_url (str ''.mp4'') \<and>
   \<not> str_includes plain_url (str ''poster'') \<and> \<not> str_includes plain_url (str ''cover'')"
proof -
  have t: "truthy (JStr plain_url)" by (simp add: plain_url_def str_def)
  have c: "str_includes cover_url (str ''cover'')"
    by (simp add: cover_url_def str_def starts_with_def)
  from video_fallback_rejects_cover_and_poster[OF two_fallback _ t]
  have "str_includes plain_url (str ''.mp4'') \<and>
        \<not> str_includes plain_url (str ''poster'') \<and> \<not> str_includes plain_url (str ''cover'')"
    by simp
  with two_fallback t c show ?thesis by simp
qed

theorem og_video_cover_url_selected:
  "extractVideoInfoFromHtml parse_example html_og_cover [] =
     Some (Inr (Some (info_with (str ''Kuaishou Video'') cover_url))) \<and>
   videoUrl (info_with (str ''Kuaishou Video'') cover_url) = JStr cover_url \<and>
   str_includes cover_url (str ''cover'')"
  using cover_result[of parse_example "[]"]
  by (simp add: info_with_def cover_url_def str_def starts_with_def)

text \<open>
  C6. In a returned object \<open>videoUrl\<close> is the resolved URL unescaped as the
  specification words it: every \<^verbatim>\<open>\u002F\<close> replaced by a slash and every backslash
  that remains removed, so that no backslash is left; the same holds for a non-empty
  thumbnail and for the audio URL when there is one (an audio URL that unescapes to
  the empty string is left out). The unescaping is fixed by three equations: text
  without a backslash is kept; after such text a \<^verbatim>\<open>\u002F\<close> becomes a slash; after
  such text a backslash that does not start a \<^verbatim>\<open>\u002F\<close> disappears. The key-style
  match \<^verbatim>\<open>https:\/\/cdn.example.com\/v.mp4\<close> becomes \<^verbatim>\<open>https://cdn.example.com/v.mp4\<close>,
  and \<^verbatim>\<open>https:\u002F\u002Fh.cn\/v.mp4\<close> becomes \<^verbatim>\<open>https://h.cn/v.mp4\<close>.
\<close>

theorem urls_are_unescaped:
  assumes "extractVideoInfoFromHtml parse html url = Some (Inr (Some d))"
  shows "(\<exists>v s. cascade parse html = Some (Inr v) \<and> var_videoUrl v = JStr s \<and>
            videoUrl d = JStr (spec_unescape s) \<and> 92 \<notin> set (spec_unescape s) \<and>
            ((\<not> truthy (var_thumbnail v) \<and> thumbnail d = var_thumbnail v) \<or>
             (\<exists>t. var_thumbnail v = JStr t \<and> thumbnail d = JStr (spec_unescape t))) \<and>
            ((\<not> truthy (var_audioUrl v) \<and> audioUrl d = JUndefined) \<or>
             (\<exists>a. var_audioUrl v = JStr a \<and>
                  audioUrl d = js_or (JStr (spec_unescape a)) JUndefined))) \<and>
         (\<forall>pre. 92 \<notin> set pre \<longrightarrow> spec_unescape pre = pre) \<and>
         (\<forall>pre post. 92 \<notin> set pre \<longrightarrow>
            spec_unescape (pre @ u002F @ post) = pre @ 47 # spec_unescape post) \<and>
         (\<forall>pre post. 92 \<notin> set pre \<and> \<not> starts_with (92 # post) u002F \<longrightarrow>
            spec_unescape (pre @ 92 # post) = pre @ spec_unescape post)"
proof -
  from assms obtain v where c: "cascade parse html = Some (Inr v)"
    and f: "finish v = Inr (Some d)"
    by (auto simp: extract_cases)
  from f obtain vid thumb audio where
    1: "unescape_if_set (var_videoUrl v) = Inr vid" and
    2: "unescape_if_set (var_thumbnail v) = Inr thumb" and
    3: "truthy vid" and
    4: "unescape_if_set (var_audioUrl v) = Inr audio" and
    d: "videoUrl d = vid" "thumbnail d = thumb" "audioUrl d = js_or audio JUndefined"
    by (auto simp: finish_def split: sum.splits if_splits)
  from 1 3 have tv: "truthy (var_videoUrl v)"
    by (auto simp: unescape_if_set_def split: if_splits)
  with 1 obtain s where s: "var_videoUrl v = JStr s" "vid = JStr (spec_unescape s)"
    by (cases "var_videoUrl v") (auto simp: unescape_if_set_def string_method_def unescape_spec)
  have th: "(\<not> truthy (var_thumbnail v) \<and> thumb = var_thumbnail v) \<or>
            (\<exists>t. var_thumbnail v = JStr t \<and> thumb = JStr (spec_unescape t))"
  proof (cases "truthy (var_thumbnail v)")
    case True
    with 2 show ?thesis
      by (cases "var_thumbnail v")
         (auto simp: unescape_if_set_def string_method_def unescape_spec)
  next
    case False
    with 2 show ?thesis by (simp add: unescape_if_set_def)
  qed
  have au: "(\<not> truthy (var_audioUrl v) \<and> js_or audio JUndefined = JUndefined) \<or>
            (\<exists>a. var_audioUrl v = JStr a \<and> audio = JStr (spec_unescape a))"
  proof (cases "truthy (var_audioUrl v)")
    case True
    with 4 show ?thesis
      by (cases "var_audioUrl v")
         (auto simp: unescape_if_set_def string_method_def unescape_spec)
  next
    case False
    with 4 show ?thesis by (simp add: unescape_if_set_def js_or_def)
  qed
  have "\<exists>v s. cascade parse html = Some (Inr v) \<and> var_videoUrl v = JStr s \<and>
            videoUrl d = JStr (spec_unescape s) \<and> 92 \<notin> set (spec_unescape s) \<and>
            ((\<not> truthy (var_thumbnail v) \<and> thumbnail d = var_thumbnail v) \<or>
             (\<exists>t. var_thumbnail v = JStr t \<and> thumbnail d = JStr (spec_unescape t))) \<and>
            ((\<not> truthy (var_audioUrl v) \<and> audioUrl d = JUndefined) \<or>
             (\<exists>a. var_audioUrl v = JStr a \<and>
                  audioUrl d = js_or (JStr (spec_unescape a)) JUndefined))"
    using c s th au d spec_unescape_no_backslash[of s] by auto
  then show ?thesis
    using spec_unescape_keeps spec_unescape_at spec_unescape_backslash by blast
qed

theorem urls_are_unescaped_witness:
  "extractVideoInfoFromHtml parse_example html_u002F [] = Some (Inr (Some info_u002F)) \<and>
   cascade parse_example html_u002F =
     Some (Inr (initial_vars\<lparr>var_thumbnail := JStr u_cover_url,
                              var_videoUrl := JStr u_video_url,
                              var_audioUrl := JStr u_audio_url\<rparr>)) \<and>
   videoUrl info_u002F = JStr (spec_unescape u_video_url) \<and>
   spec_unescape u_video_url = str ''https://h.cn/v.mp4'' \<and>
   thumbnail info_u002F = JStr (spec_unescape u_cover_url) \<and>
   spec_unescape u_cover_url = str ''https://h.cn/c.jpg'' \<and>
   audioUrl info_u002F = JStr (spec_unescape u_audio_url) \<and>
   spec_unescape u_audio_url = str ''https://h.cn/a.m4a'' \<and>
   extractVideoInfoFromHtml parse_example html_escaped [] =
     Some (Inr (Some (info_with (str ''Kuaishou Video'') (str ''https://cdn.example.com/v.mp4'')))) \<and>
   cascade parse_example html_escaped =
     Some (Inr (initial_vars\<lparr>var_videoUrl := JStr escaped_url\<rparr>)) \<and>
   spec_unescape escaped_url = str ''https://cdn.example.com/v.mp4'' \<and>
   spec_unescape (str ''a'' @ u002F @ str ''b'') = str ''a/b'' \<and>
   spec_unescape (str ''a'' @ [92] @ str ''u002b'') = str ''au002b''"
proof -
  note U = urls_are_unescaped[OF u002F_result[of parse_example "[]"]]
  from U[THEN conjunct1]
  obtain v s t a where
    v: "cascade parse_example html_u002F = Some (Inr v)" and
    s: "var_videoUrl v = JStr s" "videoUrl info_u002F = JStr (spec_unescape s)" and
    t: "(\<not> truthy (var_thumbnail v) \<and> thumbnail info_u002F = var_thumbnail v) \<or>
        (var_thumbnail v = JStr t \<and> thumbnail info_u002F = JStr (spec_unescape t))" and
    a: "(\<not> truthy (var_audioUrl v) \<and> audioUrl info_u002F = JUndefined) \<or>
        (var_audioUrl v = JStr a \<and>
         audioUrl info_u002F = js_or (JStr (spec_unescape a)) JUndefined)"
    by blast
  from v have v': "v = initial_vars\<lparr>var_thumbnail := JStr u_cover_url,
                              var_videoUrl := JStr u_video_url,
                              var_audioUrl := JStr u_audio_url\<rparr>"
    by (simp add: u002F_cascade)
  have ne: "u_cover_url \<noteq> []" "u_audio_url \<noteq> []"
    by (simp_all add: u_cover_url_def u_audio_url_def str_def)
  from s v' have 1: "videoUrl info_u002F = JStr (spec_unescape u_video_url)" by simp
  from t v' ne have 2: "thumbnail info_u002F = JStr (spec_unescape u_cover_url)" by auto
  from a v' ne have "audioUrl info_u002F = js_or (JStr (spec_unescape u_audio_url)) JUndefined"
    by auto
  then have 3: "audioUrl info_u002F = JStr (spec_unescape u_audio_url)"
    using u002F_unescape(3) by (simp add: unescape_spec js_or_def str_def)
  have keeps: "spec_unescape pre = pre" if "92 \<notin> set pre" for pre
    using U[THEN conjunct2, THEN conjunct1] that by simp
  have slash: "spec_unescape (pre @ u002F @ post) = pre @ 47 # spec_unescape post"
    if "92 \<notin> set pre" for pre post
    using U[THEN conjunct2, THEN conjunct2, THEN conjunct1] that by simp
  have other: "spec_unescape (pre @ 92 # post) = pre @ spec_unescape post"
    if "92 \<notin> set pre" "\<not> starts_with (92 # post) u002F" for pre post
    using U[THEN conjunct2, THEN conjunct2, THEN conjunct2] that by simp
  have "spec_unescape (str ''a'' @ u002F @ str ''b'') = str ''a'' @ 47 # spec_unescape (str ''b'')"
    by (rule slash) (simp add: str_def)
  moreover have "spec_unescape (str ''b'') = str ''b''"
    by (rule keeps) (simp add: str_def)
  ultimately have 4: "spec_unescape (str ''a'' @ u002F @ str ''b'') = str ''a/b''"
    by (simp add: str_def)
  have "spec_unescape (str ''a'' @ 92 # str ''u002b'') = str ''a'' @ spec_unescape (str ''u002b'')"
    by (rule other) (simp_all add: str_def starts_with_def u002F_def)
  moreover have "spec_unescape (str ''u002b'') = str ''u002b''"
    by (rule keeps) (simp add: str_def)
  ultimately have 5: "spec_unescape (str ''a'' @ [92] @ str ''u002b'') = str ''au002b''"
    by (simp add: str_def)
  show ?thesis
    using 1 2 3 4 5 u002F_result[of parse_example "[]"] u002F_cascade[of parse_example]
      u002F_unescape escaped_result[of parse_example "[]"] escaped_cascade[of parse_example]
      escaped_unescape
    by (simp add: unescape_spec plain_url_def)
qed

text \<open>
  C7. When the upstream answers the relay with a status outside 200 to 299, the
  relay answers with that same status and a JSON error body, sets no header and
  writes no chunk of the upstream body.
\<close>

theorem relay_reports_upstream_status:
  assumes "url \<noteq> []" and "fetch_media url = Some up" and "\<not> ok up"
  shows "res_status (download fetch_media (QString url) type) = up_status up \<and>
         res_json (download fetch_media (QString url) type) = Some ''Failed to download file'' \<and>
         res_chunks (download fetch_media (QString url) type) = [] \<and>
         res_headers (download fetch_media (QString url) type) = [] \<and>
         res_ended (download fetch_media (QString url) type)"
  using assms by (simp add: download_def Let_def send_error_def fresh_response_def)

theorem relay_reports_upstream_status_witness:
  "str ''u'' \<noteq> [] \<and> fetch_not_found (str ''u'') = Some not_found_upstream \<and>
   \<not> ok not_found_upstream \<and>
   res_status (download fetch_not_found (QString (str ''u'')) QAbsent) = 404 \<and>
   res_json (download fetch_not_found (QString (str ''u'')) QAbsent)
     = Some ''Failed to download file'' \<and>
   res_chunks (download fetch_not_found (QString (str ''u'')) QAbsent) = []"
proof -
  have 1: "str ''u'' \<noteq> []" by (simp add: str_def)
  have 2: "fetch_not_found (str ''u'') = Some not_found_upstream"
    by (simp add: fetch_not_found_def)
  have 3: "\<not> ok not_found_upstream" by (simp add: ok_def not_found_upstream_def)
  from relay_reports_upstream_status[where url = "str ''u''" and fetch_media = fetch_not_found
      and up = not_found_upstream and type = QAbsent, OF 1 2 3] 1 2 3
  show ?thesis by (simp add: not_found_upstream_def)
qed

text \<open>
  C8. For \<open>maxRedirects\<close> of at least 1 the error "Failed to fetch URL" is never
  raised: the first iteration either obtains a response, which the loop keeps from
  then on, or leaves the function with the error of the transport.
\<close>

theorem no_response_error_unreachable:
  assumes "1 \<le> maxRedirects"
  shows "fetchWithRedirects net resolve url maxRedirects \<noteq> Inl NoResponseError"
  using assms redirect_loop_has_response
  by (auto simp: fetch_unfold split: option.splits)

theorem no_response_error_unreachable_witness:
  "(1::int) \<le> 1 \<and>
   fetchWithRedirects (redirecting_net 0) resolve_example (hop_url 0) 1 \<noteq> Inl NoResponseError \<and>
   fetchWithRedirects (redirecting_net 0) resolve_example (hop_url 0) 1 = Inr final_response"
proof -
  have 1: "(1::int) \<le> 1" by simp
  have "fetchWithRedirects (redirecting_net 0) resolve_example (hop_url 0) 1 = Inr final_response"
    by (simp add: fetch_unfold redirecting_net_def is_redirect_def final_response_def)
  with no_response_error_unreachable[OF 1, of "redirecting_net 0" resolve_example "hop_url 0"] 1
  show ?thesis by simp
qed

text \<open>
  C9. Two invocations on the same HTML and the same original URL have the same
  outcome. With the regex objects in a store: an invocation returns what
  \<open>extractVideoInfoFromHtml\<close> returns, whatever the store holds when it starts; so
  two invocations from any two stores agree (both return the same result, or neither
  returns), and when an invocation returns \<open>r1\<close> and leaves the store \<open>st1\<close>, the
  next invocation, started in \<open>st1\<close>, returns \<open>r1\<close> again. The objects are stateful:
  on the page \<open>html_quoted\<close> the first invocation leaves the first object of
  \<^verbatim>\<open>videoUrlPatterns\<close> with \<open>lastIndex\<close> 31, and the loop of lines 137 to 143 on
  that object finds no candidate, where on a new object it finds the URL; the second
  invocation does not touch that object, it makes its own.
\<close>

theorem extraction_deterministic:
  "map_option fst (extractVideoInfoFromHtml_at parse html url st) =
     extractVideoInfoFromHtml parse html url \<and>
   map_option fst (extractVideoInfoFromHtml_at parse html url st) =
     map_option fst (extractVideoInfoFromHtml_at parse html url st') \<and>
   (extractVideoInfoFromHtml_at parse html url st = Some (r1, st1) \<longrightarrow>
      (\<exists>st2. extractVideoInfoFromHtml_at parse html url st1 = Some (r1, st2)))"
proof (intro conjI impI)
  show "map_option fst (extractVideoInfoFromHtml_at parse html url st) =
          extractVideoInfoFromHtml parse html url"
    by (rule extract_at_fst)
  show "map_option fst (extractVideoInfoFromHtml_at parse html url st) =
          map_option fst (extractVideoInfoFromHtml_at parse html url st')"
    by (simp add: extract_at_fst)
  assume "extractVideoInfoFromHtml_at parse html url st = Some (r1, st1)"
  then have "extractVideoInfoFromHtml parse html url = Some r1"
    using extract_at_fst[of parse html url st] by simp
  then have "map_option fst (extractVideoInfoFromHtml_at parse html url st1) = Some r1"
    by (simp add: extract_at_fst)
  then show "\<exists>st2. extractVideoInfoFromHtml_at parse html url st1 = Some (r1, st2)"
    by auto
qed

theorem extraction_deterministic_witness:
  "extractVideoInfoFromHtml_at parse_example html_quoted [] [] =
     Some (Inr (Some (info_with (str ''Kuaishou Video'') plain_url)), objects_left) \<and>
   re_lastIndex (objects_left ! 6) = 31 \<and>
   video_scan (quoted_url_pattern ''.mp4'') html_quoted = Some (Some plain_url) \<and>
   video_scan (objects_left ! 6) html_quoted = Some None \<and>
   map_option fst (extractVideoInfoFromHtml_at parse_example html_quoted [] objects_left) =
     Some (Inr (Some (info_with (str ''Kuaishou Video'') plain_url))) \<and>
   extractVideoInfoFromHtml_at parse_example html_quoted [] objects_left =
     Some (Inr (Some (info_with (str ''Kuaishou Video'') plain_url)),
           objects_left @ objects_left)"
proof -
  have 1: "extractVideoInfoFromHtml_at parse_example html_quoted [] [] =
     Some (Inr (Some (info_with (str ''Kuaishou Video'') plain_url)), objects_left)"
    using quoted_run[of parse_example "[]" "[]"] by simp
  from extraction_deterministic[of parse_example html_quoted "[]" "[]" "[]"
      "Inr (Some (info_with (str ''Kuaishou Video'') plain_url))" objects_left] 1
  obtain st2 where "extractVideoInfoFromHtml_at parse_example html_quoted [] objects_left =
     Some (Inr (Some (info_with (str ''Kuaishou Video'') plain_url)), st2)"
    by blast
  then have 2: "map_option fst
       (extractVideoInfoFromHtml_at parse_example html_quoted [] objects_left) =
     Some (Inr (Some (info_with (str ''Kuaishou Video'') plain_url)))"
    by simp
  show ?thesis
    using 1 2 quoted_run[of parse_example "[]" objects_left] quoted_scan_fresh quoted_scan_left
    by (simp add: objects_left_video)
qed

text \<open>
  C10. The result of the extraction does not depend on the original URL: the
  parameter is never read.
\<close>

theorem extraction_ignores_original_url:
  "extractVideoInfoFromHtml parse html u1 = extractVideoInfoFromHtml parse html u2"
  by (simp add: extractVideoInfoFromHtml_def extract_try_def)

end
